theory Spec2Isabelle
  imports Main "HOL-Library.FSet" "HOL-Library.Char_ord" "HOL-Library.List_Lexorder"
begin

section \<open>Numbers and errors of the Python source\<close>

text \<open>
  A Python float is modelled by an exact rational or one of the three special values
  \<open>inf\<close>, \<open>-inf\<close> and \<open>nan\<close>; Python integers (the stop counts, the literal \<open>0\<close>) are the
  integral rationals.  Rounding of binary floating point and overflow to infinity are
  outside the model: finite arithmetic is exact.
\<close>

datatype pyfloat = Fin rat | PInf | NInf | NaN

datatype error = ValueError string | KeyError string | IndexError | OverflowError

type_synonym station = string

fun py_add :: "pyfloat \<Rightarrow> pyfloat \<Rightarrow> pyfloat" where
  "py_add NaN y = NaN"
| "py_add x NaN = NaN"
| "py_add (Fin a) (Fin b) = Fin (a + b)"
| "py_add PInf NInf = NaN"
| "py_add NInf PInf = NaN"
| "py_add PInf y = PInf"
| "py_add NInf y = NInf"
| "py_add (Fin a) y = y"

fun py_mul :: "pyfloat \<Rightarrow> pyfloat \<Rightarrow> pyfloat" where
  "py_mul NaN y = NaN"
| "py_mul x NaN = NaN"
| "py_mul (Fin a) (Fin b) = Fin (a * b)"
| "py_mul (Fin a) PInf = (if a = 0 then NaN else if 0 < a then PInf else NInf)"
| "py_mul (Fin a) NInf = (if a = 0 then NaN else if 0 < a then NInf else PInf)"
| "py_mul PInf (Fin b) = (if b = 0 then NaN else if 0 < b then PInf else NInf)"
| "py_mul NInf (Fin b) = (if b = 0 then NaN else if 0 < b then NInf else PInf)"
| "py_mul PInf PInf = PInf"
| "py_mul NInf NInf = PInf"
| "py_mul PInf NInf = NInf"
| "py_mul NInf PInf = NInf"

text \<open>Division by a positive literal (the source divides by 100, 60 and 25 only).\<close>

fun truediv :: "pyfloat \<Rightarrow> rat \<Rightarrow> pyfloat" where
  "truediv (Fin a) c = Fin (a / c)"
| "truediv x c = x"

fun py_lt :: "pyfloat \<Rightarrow> pyfloat \<Rightarrow> bool" where
  "py_lt (Fin a) (Fin b) = (a < b)"
| "py_lt NaN y = False"
| "py_lt x NaN = False"
| "py_lt x NInf = False"
| "py_lt PInf y = False"
| "py_lt NInf y = True"
| "py_lt (Fin a) PInf = True"

fun py_eq :: "pyfloat \<Rightarrow> pyfloat \<Rightarrow> bool" where
  "py_eq NaN y = False"
| "py_eq x NaN = False"
| "py_eq x y = (x = y)"

definition py_le :: "pyfloat \<Rightarrow> pyfloat \<Rightarrow> bool" where
  "py_le x y = (py_lt x y \<or> py_eq x y)"

definition round_half_even :: "rat \<Rightarrow> int" where
  "round_half_even r =
     (let f = \<lfloor>r\<rfloor>; d = r - of_int f
      in if d < 1 / 2 then f else if 1 / 2 < d then f + 1 else if even f then f else f + 1)"

text \<open>\<open>round(x, ndigits)\<close> on a float: the special values are returned as they are.\<close>

fun py_round :: "pyfloat \<Rightarrow> nat \<Rightarrow> pyfloat" where
  "py_round (Fin r) n = Fin (of_int (round_half_even (r * 10 ^ n)) / 10 ^ n)"
| "py_round x n = x"

text \<open>\<open>int(x)\<close>: truncation towards zero; the infinities and \<open>nan\<close> raise.\<close>

fun py_int :: "pyfloat \<Rightarrow> error + int" where
  "py_int (Fin r) = Inr (if 0 \<le> r then \<lfloor>r\<rfloor> else \<lceil>r\<rceil>)"
| "py_int PInf = Inl OverflowError"
| "py_int NInf = Inl OverflowError"
| "py_int NaN = Inl (ValueError ''cannot convert float NaN to integer'')"

text \<open>Sequencing of computations that can raise, and \<open>d[k]\<close> on a plain dict.\<close>

definition then_do :: "error + 'a \<Rightarrow> ('a \<Rightarrow> error + 'b) \<Rightarrow> error + 'b" where
  "then_do r f = (case r of Inl e \<Rightarrow> Inl e | Inr v \<Rightarrow> f v)"

definition getitem :: "(string \<rightharpoonup> 'v) \<Rightarrow> string \<Rightarrow> error + 'v" where
  "getitem d k = (case d k of None \<Rightarrow> Inl (KeyError k) | Some v \<Rightarrow> Inr v)"

section \<open>KochiMetroNetwork\<close>

record connection =
  destination :: station
  travel_time :: pyfloat
  distance :: pyfloat
  cost :: pyfloat

record info =
  line :: string
  zone :: string

text \<open>
  \<open>graph\<close> is a \<open>defaultdict(list)\<close>: a dict whose keys are the stations that have been
  indexed so far.  \<open>stations\<close> is a Python set, finite by construction.
\<close>

record network =
  graph :: "station \<rightharpoonup> connection list"
  stations :: "station fset"
  station_info :: "station \<rightharpoonup> info"

text \<open>\<open>graph[k]\<close> on the defaultdict: a missing key is inserted with the empty list.\<close>

definition defaultdict_getitem ::
  "(station \<rightharpoonup> connection list) \<Rightarrow> station \<Rightarrow> connection list \<times> (station \<rightharpoonup> connection list)" where
  "defaultdict_getitem g k = (case g k of None \<Rightarrow> ([], g(k \<mapsto> [])) | Some es \<Rightarrow> (es, g))"

definition add_connection ::
  "network \<Rightarrow> station \<Rightarrow> station \<Rightarrow> pyfloat \<Rightarrow> pyfloat \<Rightarrow> pyfloat \<Rightarrow> network" where
  "add_connection net station1 station2 travel_time' distance' cost' =
     (case defaultdict_getitem (graph net) station1 of (es, g) \<Rightarrow>
        net\<lparr>graph := g(station1 \<mapsto> es @
          [\<lparr>destination = station2, travel_time = travel_time',
            distance = distance', cost = cost'\<rparr>])\<rparr>)"

definition get_zone :: "station \<Rightarrow> string" where
  "get_zone station =
     (if station \<in> set [''Aluva'', ''Pulinchodu'', ''Companypady''] then ''Zone 3''
      else if station \<in> set [''Thripunithura'', ''Petta'', ''Thaikoodam''] then ''Zone 3''
      else if station \<in> set [''M.G Road'', ''Maharajas'', ''Ernakulam South'', ''Lissie'']
        then ''Zone 1''
      else ''Zone 2'')"

text \<open>\<open>d.get(segment, d.get(reverse_segment, base))\<close> on a dict literal keyed by pairs.\<close>

definition get_segment :: "((station \<times> station) \<times> pyfloat) list \<Rightarrow> station \<Rightarrow> station \<Rightarrow> pyfloat \<Rightarrow> pyfloat" where
  "get_segment special station1 station2 base =
     (case map_of special (station1, station2) of
        Some v \<Rightarrow> v
      | None \<Rightarrow> (case map_of special (station2, station1) of Some v \<Rightarrow> v | None \<Rightarrow> base))"

definition calculate_travel_time :: "station \<Rightarrow> station \<Rightarrow> pyfloat" where
  "calculate_travel_time station1 station2 =
     get_segment
       [((''Aluva'', ''Pulinchodu''), Fin 3),
        ((''Edapally'', ''Changampuzha Park''), Fin 2),
        ((''M.G Road'', ''Maharajas''), Fin (3 / 2)),
        ((''Vyttila'', ''Thaikoodam''), Fin (7 / 2))]
       station1 station2 (Fin (5 / 2))"

definition calculate_distance :: "station \<Rightarrow> station \<Rightarrow> pyfloat" where
  "calculate_distance station1 station2 =
     get_segment
       [((''Aluva'', ''Pulinchodu''), Fin (18 / 10)),
        ((''Vyttila'', ''Thaikoodam''), Fin (21 / 10)),
        ((''M.G Road'', ''Maharajas''), Fin (8 / 10))]
       station1 station2 (Fin (12 / 10))"

definition calculate_cost :: "station \<Rightarrow> station \<Rightarrow> pyfloat" where
  "calculate_cost station1 station2 = Fin 5"

definition line1_stations :: "station list" where
  "line1_stations =
     [''Aluva'', ''Pulinchodu'', ''Companypady'', ''Ambattukavu'', ''Muttom'',
      ''Kalamassery'', ''Cusat'', ''Pathadipalam'', ''Edapally'', ''Changampuzha Park'',
      ''Palarivattom'', ''J.L.N Stadium'', ''Kaloor'', ''Lissie'', ''M.G Road'',
      ''Maharajas'', ''Ernakulam South'', ''Kadavanthra'', ''Elamkulam'',
      ''Vyttila'', ''Thaikoodam'', ''Petta'', ''Thripunithura'']"

definition add_station :: "station \<Rightarrow> network \<Rightarrow> network" where
  "add_station station net =
     net\<lparr>stations := finsert station (stations net),
         station_info := (station_info net)(station \<mapsto> \<lparr>line = ''Blue Line'', zone = get_zone station\<rparr>)\<rparr>"

text \<open>The body of the second loop of \<open>_build_network\<close>, for one index \<open>i\<close>.\<close>

definition connect_consecutive :: "nat \<Rightarrow> network \<Rightarrow> network" where
  "connect_consecutive i net =
     (let station1 = line1_stations ! i;
          station2 = line1_stations ! (i + 1);
          travel_time' = calculate_travel_time station1 station2;
          distance' = calculate_distance station1 station2;
          cost' = calculate_cost station1 station2;
          net1 = add_connection net station1 station2 travel_time' distance' cost'
      in add_connection net1 station2 station1 travel_time' distance' cost')"

definition build_network :: "network \<Rightarrow> network" where
  "build_network net =
     fold connect_consecutive [0 ..< length line1_stations - 1]
       (fold add_station line1_stations net)"

definition KochiMetroNetwork :: network where
  "KochiMetroNetwork =
     build_network \<lparr>graph = Map.empty, stations = {||}, station_info = Map.empty\<rparr>"

text \<open>The edges leaving a station, as a read of the defaultdict yields them.\<close>

definition outgoing :: "network \<Rightarrow> station \<Rightarrow> connection list" where
  "outgoing net s = fst (defaultdict_getitem (graph net) s)"

section \<open>MetroRouteOptimizer\<close>

record results =
  distances :: "station \<rightharpoonup> pyfloat"
  costs :: "station \<rightharpoonup> pyfloat"
  times :: "station \<rightharpoonup> pyfloat"
  stops :: "station \<rightharpoonup> pyfloat"
  previous :: "station \<rightharpoonup> station option"

text \<open>
  The working state of \<open>dijkstra_multi_criteria\<close>: the five tables it returns, the heap,
  the settled set, and the network object the optimizer is bound to.
\<close>

record locals = results +
  pq :: "(pyfloat \<times> station) list"
  visited :: "station set"
  network :: network

text \<open>
  \<open>heapq\<close> keeps a binary heap in a list; \<open>heappop\<close> returns its least item under the
  tuple order of Python.  The model keeps the items in a list and extracts the least one.
\<close>

definition tuple_lt :: "pyfloat \<times> station \<Rightarrow> pyfloat \<times> station \<Rightarrow> bool" where
  "tuple_lt x y = (if py_eq (fst x) (fst y) then snd x < snd y else py_lt (fst x) (fst y))"

fun heap_min :: "pyfloat \<times> station \<Rightarrow> (pyfloat \<times> station) list \<Rightarrow> pyfloat \<times> station" where
  "heap_min m [] = m"
| "heap_min m (y # ys) = heap_min (if tuple_lt y m then y else m) ys"

definition heappop ::
  "(pyfloat \<times> station) list \<Rightarrow> error + ((pyfloat \<times> station) \<times> (pyfloat \<times> station) list)" where
  "heappop h = (case h of [] \<Rightarrow> Inl IndexError
                | x # xs \<Rightarrow> (let m = heap_min x xs in Inr (m, remove1 m h)))"

definition heappush :: "(pyfloat \<times> station) list \<Rightarrow> pyfloat \<times> station \<Rightarrow> (pyfloat \<times> station) list" where
  "heappush h x = h @ [x]"

definition composite ::
  "pyfloat \<Rightarrow> pyfloat \<Rightarrow> pyfloat \<Rightarrow> pyfloat \<Rightarrow> pyfloat \<Rightarrow> pyfloat \<Rightarrow> pyfloat" where
  "composite cost_weight time_weight stops_weight new_cost new_time new_stops =
     (let normalized_cost = truediv new_cost 100;
          normalized_time = truediv new_time 60;
          normalized_stops = truediv new_stops 25
      in py_add (py_add (py_mul cost_weight normalized_cost)
                        (py_mul time_weight normalized_time))
                (py_mul stops_weight normalized_stops))"

text \<open>The body of the \<open>for connection in ...\<close> loop.\<close>

definition relax ::
  "pyfloat \<Rightarrow> pyfloat \<Rightarrow> pyfloat \<Rightarrow> station \<Rightarrow> connection \<Rightarrow> locals \<Rightarrow> error + locals" where
  "relax cost_weight time_weight stops_weight current_station connection st =
     (let neighbor = destination connection in
      if neighbor \<in> visited st then Inr st
      else
        then_do (getitem (costs st) current_station) (\<lambda>c.
        then_do (getitem (times st) current_station) (\<lambda>t.
        then_do (getitem (stops st) current_station) (\<lambda>k.
          let new_cost = py_add c (cost connection);
              new_time = py_add t (travel_time connection);
              new_stops = py_add k (Fin 1);
              composite_distance =
                composite cost_weight time_weight stops_weight new_cost new_time new_stops
          in then_do (getitem (distances st) neighbor) (\<lambda>d.
               if py_lt composite_distance d then
                 Inr (st\<lparr>distances := (distances st)(neighbor \<mapsto> composite_distance),
                         costs := (costs st)(neighbor \<mapsto> new_cost),
                         times := (times st)(neighbor \<mapsto> new_time),
                         stops := (stops st)(neighbor \<mapsto> new_stops),
                         previous := (previous st)(neighbor \<mapsto> Some current_station),
                         pq := heappush (pq st) (composite_distance, neighbor)\<rparr>)
               else Inr st)))))"

fun relax_all ::
  "pyfloat \<Rightarrow> pyfloat \<Rightarrow> pyfloat \<Rightarrow> station \<Rightarrow> connection list \<Rightarrow> locals \<Rightarrow> error + locals" where
  "relax_all cw tw sw current_station [] st = Inr st"
| "relax_all cw tw sw current_station (connection # rest) st =
     (case relax cw tw sw current_station connection st of
        Inl e \<Rightarrow> Inl e
      | Inr st' \<Rightarrow> relax_all cw tw sw current_station rest st')"

text \<open>
  One pass through the body of \<open>while pq\<close>.  An error leaves with the network as it is
  at that moment.
\<close>

definition iteration ::
  "pyfloat \<Rightarrow> pyfloat \<Rightarrow> pyfloat \<Rightarrow> locals \<Rightarrow> (error \<times> network) + locals" where
  "iteration cw tw sw st =
     (case heappop (pq st) of
        Inl e \<Rightarrow> Inl (e, network st)
      | Inr ((current_distance, current_station), rest) \<Rightarrow>
          if current_station \<in> visited st then Inr (st\<lparr>pq := rest\<rparr>)
          else
            (case defaultdict_getitem (graph (network st)) current_station of
               (edges, g) \<Rightarrow>
                 (let st1 = st\<lparr>pq := rest,
                               visited := insert current_station (visited st),
                               network := (network st)\<lparr>graph := g\<rparr>\<rparr>
                  in case relax_all cw tw sw current_station edges st1 of
                       Inl e \<Rightarrow> Inl (e, network st1)
                     | Inr st2 \<Rightarrow> Inr st2)))"

partial_function (option) dijkstra_loop ::
  "pyfloat \<Rightarrow> pyfloat \<Rightarrow> pyfloat \<Rightarrow> locals \<Rightarrow> ((error \<times> network) + locals) option" where
  "dijkstra_loop cw tw sw st =
     (if pq st = [] then Some (Inr st)
      else case iteration cw tw sw st of
             Inl e \<Rightarrow> Some (Inl e)
           | Inr st' \<Rightarrow> dijkstra_loop cw tw sw st')"

declare dijkstra_loop.simps [code]

definition not_found :: "station \<Rightarrow> string" where
  "not_found start_station =
     ''Station '' @ [CHR 0x27] @ start_station @ [CHR 0x27] @ '' not found in the network''"

definition initial :: "network \<Rightarrow> station \<Rightarrow> locals" where
  "initial net start_station =
     \<lparr>distances = (\<lambda>station. if station |\<in>| stations net then Some PInf else None)
                    (start_station \<mapsto> Fin 0),
      costs = (\<lambda>station. if station |\<in>| stations net then Some PInf else None)
                (start_station \<mapsto> Fin 0),
      times = (\<lambda>station. if station |\<in>| stations net then Some PInf else None)
                (start_station \<mapsto> Fin 0),
      stops = (\<lambda>station. if station |\<in>| stations net then Some PInf else None)
                (start_station \<mapsto> Fin 0),
      previous = (\<lambda>station. if station |\<in>| stations net then Some None else None),
      pq = [(Fin 0, start_station)],
      visited = {},
      network = net\<rparr>"

text \<open>The dict that \<open>dijkstra_multi_criteria\<close> returns.\<close>

definition results_of :: "locals \<Rightarrow> results" where
  "results_of st =
     \<lparr>distances = distances st, costs = costs st, times = times st,
      stops = stops st, previous = previous st\<rparr>"

text \<open>
  The result is paired with the network after the call; \<open>None\<close> stands for a loop that
  never ends.
\<close>

definition dijkstra_multi_criteria ::
  "network \<Rightarrow> station \<Rightarrow> pyfloat \<Rightarrow> pyfloat \<Rightarrow> pyfloat \<Rightarrow> ((error + results) \<times> network) option" where
  "dijkstra_multi_criteria net start_station cost_weight time_weight stops_weight =
     (if start_station |\<notin>| stations net then
        Some (Inl (ValueError (not_found start_station)), net)
      else
        case dijkstra_loop cost_weight time_weight stops_weight (initial net start_station) of
          None \<Rightarrow> None
        | Some (Inl (e, net')) \<Rightarrow> Some (Inl e, net')
        | Some (Inr st) \<Rightarrow> Some (Inr (results_of st), network st))"

text \<open>The \<open>while current is not None\<close> loop of \<open>get_path\<close>.\<close>

partial_function (option) walk ::
  "(station \<rightharpoonup> station option) \<Rightarrow> station option \<Rightarrow> station list \<Rightarrow> (error + station list) option" where
  "walk previous' current path' =
     (case current of
        None \<Rightarrow> Some (Inr path')
      | Some c \<Rightarrow>
          (case previous' c of
             None \<Rightarrow> Some (Inl (KeyError c))
           | Some p \<Rightarrow> walk previous' p (path' @ [c])))"

declare walk.simps [code]

definition get_path ::
  "station \<Rightarrow> station \<Rightarrow> (station \<rightharpoonup> station option) \<Rightarrow> (error + station list) option" where
  "get_path start_station end_station previous' =
     (case walk previous' (Some end_station) [] of
        None \<Rightarrow> None
      | Some (Inl e) \<Rightarrow> Some (Inl e)
      | Some (Inr walked) \<Rightarrow>
          (case rev walked of
             [] \<Rightarrow> Some (Inl IndexError)
           | first # others \<Rightarrow>
               if first \<noteq> start_station then Some (Inr []) else Some (Inr (first # others))))"

record route =
  path :: "station list"
  total_cost :: pyfloat
  total_time :: pyfloat
  total_stops :: int
  composite_score :: pyfloat

text \<open>The body of the loop of \<open>find_optimal_routes\<close>, for one station.\<close>

definition route_body ::
  "station \<Rightarrow> results \<Rightarrow> station \<Rightarrow> (station \<rightharpoonup> route) \<Rightarrow> (error + (station \<rightharpoonup> route)) option" where
  "route_body start_station res station routes =
     (if station = start_station then Some (Inr routes)
      else case getitem (distances res) station of
        Inl e \<Rightarrow> Some (Inl e)
      | Inr d \<Rightarrow>
          (if py_eq d PInf then Some (Inr routes)
           else (case get_path start_station station (previous res) of
             None \<Rightarrow> None
           | Some (Inl e) \<Rightarrow> Some (Inl e)
           | Some (Inr path') \<Rightarrow>
               Some (then_do (getitem (costs res) station) (\<lambda>c.
                     then_do (getitem (times res) station) (\<lambda>t.
                     then_do (getitem (stops res) station) (\<lambda>k.
                     then_do (py_int k) (\<lambda>n.
                     then_do (getitem (distances res) station) (\<lambda>d'.
                       let entry = \<lparr>path = path', total_cost = py_round c 2,
                                    total_time = py_round t 2, total_stops = n,
                                    composite_score = py_round d' 4\<rparr>
                       in Inr (routes(station \<mapsto> entry)))))))))))"

fun routes_loop ::
  "station \<Rightarrow> results \<Rightarrow> station list \<Rightarrow> (station \<rightharpoonup> route) \<Rightarrow> (error + (station \<rightharpoonup> route)) option" where
  "routes_loop start_station res [] routes = Some (Inr routes)"
| "routes_loop start_station res (station # rest) routes =
     (case route_body start_station res station routes of
        None \<Rightarrow> None
      | Some (Inl e) \<Rightarrow> Some (Inl e)
      | Some (Inr routes') \<Rightarrow> routes_loop start_station res rest routes')"

text \<open>
  The iteration order of a Python set is not specified; the model visits the stations
  in sorted order.  The mapping that is built does not depend on the order.
\<close>

definition find_optimal_routes ::
  "network \<Rightarrow> station \<Rightarrow> pyfloat \<Rightarrow> pyfloat \<Rightarrow> pyfloat \<Rightarrow> ((error + (station \<rightharpoonup> route)) \<times> network) option" where
  "find_optimal_routes net start_station cost_weight time_weight stops_weight =
     (case dijkstra_multi_criteria net start_station cost_weight time_weight stops_weight of
        None \<Rightarrow> None
      | Some (Inl e, net') \<Rightarrow> Some (Inl e, net')
      | Some (Inr res, net') \<Rightarrow>
          (case routes_loop start_station res (sorted_list_of_fset (stations net')) Map.empty of
             None \<Rightarrow> None
           | Some r \<Rightarrow> Some (r, net')))"

section \<open>Properties of networks, paths and working states\<close>

text \<open>Every edge that leaves a registered station ends at a registered station.\<close>

definition wf_network :: "network \<Rightarrow> bool" where
  "wf_network net =
     (\<forall>s |\<in>| stations net. \<forall>c \<in> set (outgoing net s). destination c |\<in>| stations net)"

definition has_edge :: "network \<Rightarrow> station \<Rightarrow> station \<Rightarrow> bool" where
  "has_edge net a b = (b \<in> destination ` set (outgoing net a))"

text \<open>Every consecutive pair of the path is joined by an edge of the network.\<close>

fun path_edges :: "network \<Rightarrow> station list \<Rightarrow> bool" where
  "path_edges net (a # b # rest) = (has_edge net a b \<and> path_edges net (b # rest))"
| "path_edges net rest = True"

definition score_le :: "(station \<rightharpoonup> pyfloat) \<Rightarrow> station \<Rightarrow> station \<Rightarrow> bool" where
  "score_le d a b = (case d a of None \<Rightarrow> False
                     | Some x \<Rightarrow> (case d b of None \<Rightarrow> False | Some y \<Rightarrow> py_le x y))"

text \<open>The score of every station of the path is at most the score of its successor.\<close>

fun nondecreasing :: "(station \<rightharpoonup> pyfloat) \<Rightarrow> station list \<Rightarrow> bool" where
  "nondecreasing d (a # b # rest) = (score_le d a b \<and> nondecreasing d (b # rest))"
| "nondecreasing d rest = True"

text \<open>\<open>0 <= x\<close> in Python: a finite number that is not negative, or \<open>inf\<close>.\<close>

definition nonneg :: "pyfloat \<Rightarrow> bool" where
  "nonneg x = py_le (Fin 0) x"

definition nonneg_network :: "network \<Rightarrow> bool" where
  "nonneg_network net =
     (\<forall>s |\<in>| stations net. \<forall>c \<in> set (outgoing net s).
        nonneg (cost c) \<and> nonneg (travel_time c))"

text \<open>
  A walk along the predecessor links: the list starts at a station, each next element
  is the predecessor of the one before, and the last element has no predecessor.
\<close>

fun chain :: "(station \<rightharpoonup> station option) \<Rightarrow> station list \<Rightarrow> bool" where
  "chain prev [] = False"
| "chain prev [x] = (prev x = Some None)"
| "chain prev (x # y # rest) = (prev x = Some (Some y) \<and> chain prev (y # rest))"

definition reached :: "station \<Rightarrow> locals \<Rightarrow> station \<Rightarrow> bool" where
  "reached start st s = (s = start \<or> (\<exists>p. previous st s = Some (Some p)))"

text \<open>Invariants of the loop of \<open>dijkstra_multi_criteria\<close>, for the network \<open>net0\<close> it was
  called on and the origin \<open>start\<close>.\<close>

definition keys_inv :: "network \<Rightarrow> locals \<Rightarrow> bool" where
  "keys_inv net0 st =
     (dom (distances st) = fset (stations net0) \<and> dom (costs st) = fset (stations net0) \<and>
      dom (times st) = fset (stations net0) \<and> dom (stops st) = fset (stations net0) \<and>
      dom (previous st) = fset (stations net0) \<and>
      (\<forall>x \<in> set (pq st). snd x |\<in>| stations net0) \<and> visited st \<subseteq> fset (stations net0))"

definition net_inv :: "network \<Rightarrow> locals \<Rightarrow> bool" where
  "net_inv net0 st =
     (network st = net0\<lparr>graph := (\<lambda>s. if s \<in> visited st \<and> graph net0 s = None then Some []
                                       else graph net0 s)\<rparr>)"

definition start_inv :: "station \<Rightarrow> locals \<Rightarrow> bool" where
  "start_inv start st =
     (previous st start = Some None \<and> stops st start = Some (Fin 0) \<and>
      (start \<in> visited st \<or> (visited st = {} \<and> pq st = [(Fin 0, start)])))"

definition links_inv :: "network \<Rightarrow> locals \<Rightarrow> bool" where
  "links_inv net0 st =
     (\<forall>s p. previous st s = Some (Some p) \<longrightarrow>
        p \<in> visited st \<and> has_edge net0 p s \<and>
        (\<exists>k. stops st p = Some k \<and> stops st s = Some (py_add k (Fin 1))))"

definition chains_inv :: "locals \<Rightarrow> bool" where
  "chains_inv st =
     (\<forall>s \<in> visited st. \<exists>xs. chain (previous st) (s # xs) \<and> set xs \<subseteq> visited st)"

definition reached_inv :: "station \<Rightarrow> locals \<Rightarrow> bool" where
  "reached_inv start st =
     ((\<forall>s \<in> visited st. reached start st s) \<and>
      (\<forall>x \<in> set (pq st). reached start st (snd x)) \<and>
      (\<forall>s d. distances st s = Some d \<longrightarrow> \<not> py_eq d PInf \<longrightarrow> reached start st s))"

definition tree_inv :: "network \<Rightarrow> station \<Rightarrow> locals \<Rightarrow> bool" where
  "tree_inv net0 start st =
     (keys_inv net0 st \<and> net_inv net0 st \<and> start_inv start st \<and> links_inv net0 st \<and>
      chains_inv st \<and> reached_inv start st)"

text \<open>The state after a relaxation has stored new totals for the neighbour \<open>n\<close>.\<close>

definition relaxed :: "station \<Rightarrow> station \<Rightarrow> pyfloat \<Rightarrow> pyfloat \<Rightarrow> pyfloat \<Rightarrow> pyfloat \<Rightarrow> locals \<Rightarrow> locals" where
  "relaxed cur n d c t k st =
     st\<lparr>distances := (distances st)(n \<mapsto> d), costs := (costs st)(n \<mapsto> c),
        times := (times st)(n \<mapsto> t), stops := (stops st)(n \<mapsto> k),
        previous := (previous st)(n \<mapsto> Some cur), pq := heappush (pq st) (d, n)\<rparr>"

text \<open>The state after the station \<open>cur\<close> has been popped with key \<open>d\<close> and settled.\<close>

definition settled :: "pyfloat \<Rightarrow> station \<Rightarrow> locals \<Rightarrow> locals" where
  "settled d cur st =
     st\<lparr>pq := remove1 (d, cur) (pq st), visited := insert cur (visited st),
        network := (network st)\<lparr>graph := snd (defaultdict_getitem (graph (network st)) cur)\<rparr>\<rparr>"

text \<open>What a route entry for the station \<open>s\<close> holds, in terms of the returned tables.\<close>

definition is_route :: "station \<Rightarrow> results \<Rightarrow> station \<Rightarrow> route \<Rightarrow> bool" where
  "is_route start res s r =
     ((\<exists>d. distances res s = Some d \<and> \<not> py_eq d PInf \<and> composite_score r = py_round d 4) \<and>
      get_path start s (previous res) = Some (Inr (path r)) \<and>
      (\<exists>c. costs res s = Some c \<and> total_cost r = py_round c 2) \<and>
      (\<exists>t. times res s = Some t \<and> total_time r = py_round t 2) \<and>
      (\<exists>k. stops res s = Some k \<and> py_int k = Inr (total_stops r)))"

text \<open>What the network can look like after the call: the network the call was given, with
  an empty list of edges entered for some registered stations that had no entry.\<close>

definition touched :: "network \<Rightarrow> network \<Rightarrow> bool" where
  "touched net0 n =
     (\<exists>V. V \<subseteq> fset (stations net0) \<and>
        n = net0\<lparr>graph := (\<lambda>s. if s \<in> V \<and> graph net0 s = None then Some []
                                else graph net0 s)\<rparr>)"

text \<open>
  The score invariant of the loop: every station that has been reached has finite totals
  that are not negative and a finite score, bounded by the blend of its totals when the
  weights are finite; and the score of a predecessor is at most the score of its successor.
\<close>

definition score_bound :: "pyfloat \<Rightarrow> pyfloat \<Rightarrow> pyfloat \<Rightarrow> rat \<Rightarrow> rat \<Rightarrow> rat \<Rightarrow> rat \<Rightarrow> bool" where
  "score_bound cw tw sw d c t k =
     (\<forall>a b e. cw = Fin a \<and> tw = Fin b \<and> sw = Fin e \<longrightarrow>
        d \<le> a * (c / 100) + b * (t / 60) + e * (k / 25))"

definition score_inv :: "pyfloat \<Rightarrow> pyfloat \<Rightarrow> pyfloat \<Rightarrow> station \<Rightarrow> locals \<Rightarrow> bool" where
  "score_inv cw tw sw start st =
     ((\<forall>s. reached start st s \<longrightarrow>
         (\<exists>c t k d. costs st s = Some (Fin c) \<and> times st s = Some (Fin t) \<and>
            stops st s = Some (Fin k) \<and> distances st s = Some (Fin d) \<and>
            0 \<le> c \<and> 0 \<le> t \<and> 0 \<le> k \<and> score_bound cw tw sw d c t k)) \<and>
      (\<forall>s p. previous st s = Some (Some p) \<longrightarrow> score_le (distances st) p s))"

section \<open>Inputs used as examples\<close>

text \<open>The network of the constructor after \<open>network.stations.add('Airport')\<close>.\<close>

definition with_isolated_airport :: network where
  "with_isolated_airport =
     KochiMetroNetwork\<lparr>stations := finsert ''Airport'' (stations KochiMetroNetwork)\<rparr>"

text \<open>The network of the constructor after
  \<open>network.add_connection('Aluva', 'Airport', 10.0, 5.0, 20.0)\<close>.\<close>

definition with_airport_edge :: network where
  "with_airport_edge =
     add_connection KochiMetroNetwork ''Aluva'' ''Airport'' (Fin 10) (Fin 5) (Fin 20)"

text \<open>The network with the unreached station Airport after
  \<open>network.add_connection('Aluva', 'Ghost', 10.0, 5.0, 20.0)\<close>.\<close>

definition with_airport_and_ghost_edge :: network where
  "with_airport_and_ghost_edge =
     add_connection with_isolated_airport ''Aluva'' ''Ghost'' (Fin 10) (Fin 5) (Fin 20)"

text \<open>The exception a call ended with, if it did.\<close>

definition raised :: "((error + 'a) \<times> network) option \<Rightarrow> error option" where
  "raised r = (case r of Some (Inl e, n) \<Rightarrow> Some e | _ \<Rightarrow> None)"

section \<open>The network model\<close>

lemma defaultdict_getitem_fst:
  "fst (defaultdict_getitem g k) = (case g k of None \<Rightarrow> [] | Some es \<Rightarrow> es)"
  by (simp add: defaultdict_getitem_def split: option.splits)

lemma defaultdict_getitem_snd:
  "snd (defaultdict_getitem g k) = (case g k of None \<Rightarrow> g(k \<mapsto> []) | Some es \<Rightarrow> g)"
  by (simp add: defaultdict_getitem_def split: option.splits)

text \<open>
  C5, as the code has it: \<open>add_connection\<close> appends the edge to the end of the list of
  edges leaving \<open>station1\<close> (creating the list when there was none) and changes nothing
  else.  The station set and the station info are what they were, so neither endpoint
  is registered by the call.
\<close>

theorem add_connection_appends_only:
  "add_connection net a b t d c =
     net\<lparr>graph := (graph net)(a \<mapsto> outgoing net a @
       [\<lparr>destination = b, travel_time = t, distance = d, cost = c\<rparr>])\<rparr>
   \<and> outgoing (add_connection net a b t d c) a =
       outgoing net a @ [\<lparr>destination = b, travel_time = t, distance = d, cost = c\<rparr>]
   \<and> stations (add_connection net a b t d c) = stations net
   \<and> station_info (add_connection net a b t d c) = station_info net"
  by (simp add: add_connection_def outgoing_def defaultdict_getitem_def split: option.splits)

text \<open>
  C5, as the claim states it, fails: after the constructor, connecting Aluva to a
  station that is not registered leaves that station outside the station set, although
  the edge is there.
\<close>

theorem add_connection_registers_counterexample:
  "has_edge (add_connection KochiMetroNetwork ''Aluva'' ''Airport'' (Fin 10) (Fin 5) (Fin 20))
     ''Aluva'' ''Airport''
   \<and> ''Airport'' |\<notin>|
       stations (add_connection KochiMetroNetwork ''Aluva'' ''Airport'' (Fin 10) (Fin 5) (Fin 20))"
  by code_simp

section \<open>The relaxation loop keeps its invariants\<close>

lemma then_do_Inr: "then_do r f = Inr v \<longleftrightarrow> (\<exists>x. r = Inr x \<and> f x = Inr v)"
  by (cases r) (simp_all add: then_do_def)

lemma getitem_Inr: "getitem d k = Inr v \<longleftrightarrow> d k = Some v"
  by (simp add: getitem_def split: option.splits)

lemma getitem_Inl: "getitem d k = Inl e \<longleftrightarrow> d k = None \<and> e = KeyError k"
  by (auto simp add: getitem_def split: option.splits)

lemma relax_Inr_cases:
  assumes "relax cw tw sw cur c st = Inr st'"
  obtains (skip) "st' = st"
  | (update) cc t k d where
      "destination c \<notin> visited st" "costs st cur = Some cc" "times st cur = Some t"
      "stops st cur = Some k" "distances st (destination c) = Some d"
      "py_lt (composite cw tw sw (py_add cc (cost c)) (py_add t (travel_time c)) (py_add k (Fin 1))) d"
      "st' = relaxed cur (destination c)
               (composite cw tw sw (py_add cc (cost c)) (py_add t (travel_time c)) (py_add k (Fin 1)))
               (py_add cc (cost c)) (py_add t (travel_time c)) (py_add k (Fin 1)) st"
  using assms
  by (auto simp add: relax_def relaxed_def Let_def then_do_Inr getitem_Inr split: if_splits)

lemma relaxed_sel [simp]:
  "distances (relaxed cur n d c t k st) = (distances st)(n \<mapsto> d)"
  "costs (relaxed cur n d c t k st) = (costs st)(n \<mapsto> c)"
  "times (relaxed cur n d c t k st) = (times st)(n \<mapsto> t)"
  "stops (relaxed cur n d c t k st) = (stops st)(n \<mapsto> k)"
  "previous (relaxed cur n d c t k st) = (previous st)(n \<mapsto> Some cur)"
  "pq (relaxed cur n d c t k st) = pq st @ [(d, n)]"
  "visited (relaxed cur n d c t k st) = visited st"
  "network (relaxed cur n d c t k st) = network st"
  by (simp_all add: relaxed_def heappush_def)

lemma keys_inv_relaxed:
  "keys_inv net0 st \<Longrightarrow> n \<in> dom (distances st) \<Longrightarrow> keys_inv net0 (relaxed cur n d c t k st)"
  by (auto simp add: keys_inv_def)

lemma net_inv_relaxed: "net_inv net0 st \<Longrightarrow> net_inv net0 (relaxed cur n d c t k st)"
  by (simp add: net_inv_def)

lemma start_inv_relaxed:
  "start_inv start st \<Longrightarrow> start \<in> visited st \<Longrightarrow> n \<notin> visited st \<Longrightarrow>
   start_inv start (relaxed cur n d c t k st)"
  by (auto simp add: start_inv_def)

lemma links_inv_relaxed:
  assumes "links_inv net0 st" "cur \<in> visited st" "n \<notin> visited st" "has_edge net0 cur n"
    "stops st cur = Some k"
  shows "links_inv net0 (relaxed cur n d c t (py_add k (Fin 1)) st)"
  using assms unfolding links_inv_def by (auto simp add: fun_upd_def)

lemma chain_cong: "(\<forall>x \<in> set l. p x = q x) \<Longrightarrow> chain p l = chain q l"
  by (induction p l rule: chain.induct) auto

lemma chains_inv_relaxed:
  assumes "chains_inv st" "n \<notin> visited st"
  shows "chains_inv (relaxed cur n d c t k st)"
  unfolding chains_inv_def
proof
  fix s assume s: "s \<in> visited (relaxed cur n d c t k st)"
  then obtain xs where xs: "chain (previous st) (s # xs)" "set xs \<subseteq> visited st"
    using assms(1) by (auto simp add: chains_inv_def)
  have "\<forall>x \<in> set (s # xs). previous (relaxed cur n d c t k st) x = previous st x"
    using s xs(2) assms(2) by auto
  then have "chain (previous (relaxed cur n d c t k st)) (s # xs)"
    using xs(1) chain_cong by blast
  then show "\<exists>xs. chain (previous (relaxed cur n d c t k st)) (s # xs) \<and>
      set xs \<subseteq> visited (relaxed cur n d c t k st)"
    using xs(2) by auto
qed

lemma reached_relaxed: "reached start st s \<Longrightarrow> reached start (relaxed cur n d c t k st) s"
  by (auto simp add: reached_def)

lemma reached_relaxed_self: "reached start (relaxed cur n d c t k st) n"
  by (auto simp add: reached_def)

lemma reached_inv_relaxed:
  assumes "reached_inv start st"
  shows "reached_inv start (relaxed cur n d c t k st)"
  using assms unfolding reached_inv_def
  by (auto simp add: reached_relaxed reached_relaxed_self split: if_splits)

lemma tree_inv_relax:
  assumes "tree_inv net0 start st" "cur \<in> visited st" "start \<in> visited st"
    "c \<in> set (outgoing net0 cur)" "relax cw tw sw cur c st = Inr st'"
  shows "tree_inv net0 start st' \<and> visited st' = visited st"
  using assms(5)
proof (cases rule: relax_Inr_cases)
  case skip
  then show ?thesis using assms(1) by simp
next
  case (update cc t k d)
  have e: "has_edge net0 cur (destination c)"
    using assms(4) by (simp add: has_edge_def)
  have n: "destination c \<in> dom (distances st)" using update(5) by auto
  show ?thesis
    using assms(1-3) update(1,4) e n unfolding tree_inv_def update(7)
    by (simp add: keys_inv_relaxed net_inv_relaxed start_inv_relaxed links_inv_relaxed
        chains_inv_relaxed reached_inv_relaxed)
qed

lemma tree_inv_relax_all:
  assumes "tree_inv net0 start st" "cur \<in> visited st" "start \<in> visited st"
    "set es \<subseteq> set (outgoing net0 cur)" "relax_all cw tw sw cur es st = Inr st'"
  shows "tree_inv net0 start st' \<and> visited st' = visited st"
  using assms
proof (induction es arbitrary: st)
  case Nil
  then show ?case by simp
next
  case (Cons c es)
  from Cons.prems(5) obtain st1 where st1: "relax cw tw sw cur c st = Inr st1"
    "relax_all cw tw sw cur es st1 = Inr st'"
    by (auto split: sum.splits)
  have "tree_inv net0 start st1 \<and> visited st1 = visited st"
    using tree_inv_relax[OF Cons.prems(1-3) _ st1(1)] Cons.prems(4) by simp
  then show ?case
    using Cons.IH[of st1] Cons.prems(2-4) st1(2) by simp
qed

lemma heap_min_in: "heap_min m ys \<in> set (m # ys)"
  by (induction ys arbitrary: m) (auto split: if_splits)

lemma heappop_Inr: "heappop h = Inr (m, rest) \<Longrightarrow> m \<in> set h \<and> rest = remove1 m h"
  using heap_min_in by (cases h) (auto simp add: heappop_def Let_def)

lemma heappop_Inl: "heappop h = Inl e \<Longrightarrow> h = []"
  by (cases h) (auto simp add: heappop_def Let_def)

lemma iteration_Inr_cases:
  assumes "iteration cw tw sw st = Inr st'"
  obtains (continue) d cur where "(d, cur) \<in> set (pq st)" "cur \<in> visited st"
      "st' = st\<lparr>pq := remove1 (d, cur) (pq st)\<rparr>"
  | (settle) d cur where "(d, cur) \<in> set (pq st)" "cur \<notin> visited st"
      "relax_all cw tw sw cur (outgoing (network st) cur) (settled d cur st) = Inr st'"
  using assms
  by (auto simp add: iteration_def settled_def outgoing_def Let_def
      split: sum.splits prod.splits if_splits dest!: heappop_Inr)

lemma settled_sel [simp]:
  "distances (settled d cur st) = distances st"
  "costs (settled d cur st) = costs st"
  "times (settled d cur st) = times st"
  "stops (settled d cur st) = stops st"
  "previous (settled d cur st) = previous st"
  "pq (settled d cur st) = remove1 (d, cur) (pq st)"
  "visited (settled d cur st) = insert cur (visited st)"
  by (simp_all add: settled_def)

lemma in_remove1D: "x \<in> set (remove1 y xs) \<Longrightarrow> x \<in> set xs"
  by (meson set_remove1_subset subsetD)

lemma keys_inv_settled:
  assumes "keys_inv net0 st" "(d, cur) \<in> set (pq st)"
  shows "keys_inv net0 (settled d cur st)"
  using assms unfolding keys_inv_def by (auto dest: in_remove1D)

lemma net_inv_outgoing: "net_inv net0 st \<Longrightarrow> outgoing (network st) s = outgoing net0 s"
  by (simp add: net_inv_def outgoing_def defaultdict_getitem_fst)

lemma net_inv_settled:
  assumes "net_inv net0 st"
  shows "net_inv net0 (settled d cur st)"
proof -
  have "snd (defaultdict_getitem (graph (network st)) cur) =
      (\<lambda>s. if s \<in> insert cur (visited st) \<and> graph net0 s = None then Some []
           else graph net0 s)"
    using assms
    by (auto simp add: net_inv_def defaultdict_getitem_snd fun_eq_iff split: option.splits)
  then show ?thesis
    using assms by (simp add: net_inv_def settled_def)
qed

lemma start_inv_settled:
  "start_inv start st \<Longrightarrow> (d, cur) \<in> set (pq st) \<Longrightarrow>
   start_inv start (settled d cur st) \<and> start \<in> visited (settled d cur st)"
  by (auto simp add: start_inv_def)

lemma links_inv_settled: "links_inv net0 st \<Longrightarrow> links_inv net0 (settled d cur st)"
  unfolding links_inv_def by auto

lemma chains_inv_settled:
  assumes "chains_inv st" "reached start st cur" "start_inv start st" "links_inv net0 st"
  shows "chains_inv (settled d cur st)"
  unfolding chains_inv_def
proof
  fix s assume "s \<in> visited (settled d cur st)"
  then consider "s \<in> visited st" | "s = cur" by auto
  then have "\<exists>xs. chain (previous st) (s # xs) \<and> set xs \<subseteq> visited st"
  proof cases
    case 1
    then show ?thesis using assms(1) by (simp add: chains_inv_def)
  next
    case 2
    show ?thesis
    proof (cases "\<exists>p. previous st cur = Some (Some p)")
      case True
      then obtain p where p: "previous st cur = Some (Some p)" by blast
      then have "p \<in> visited st" using assms(4) by (simp add: links_inv_def)
      then obtain ys where "chain (previous st) (p # ys)" "set ys \<subseteq> visited st"
        using assms(1) by (auto simp add: chains_inv_def)
      then have "chain (previous st) (s # p # ys) \<and> set (p # ys) \<subseteq> visited st"
        using p 2 \<open>p \<in> visited st\<close> by simp
      then show ?thesis by blast
    next
      case False
      then have "cur = start" using assms(2) by (simp add: reached_def)
      then have "chain (previous st) [s]" using assms(3) 2 by (simp add: start_inv_def)
      then show ?thesis by (intro exI[of _ "[]"]) simp
    qed
  qed
  then show "\<exists>xs. chain (previous (settled d cur st)) (s # xs) \<and>
      set xs \<subseteq> visited (settled d cur st)"
    by auto
qed

lemma reached_settled: "reached start (settled d cur st) s = reached start st s"
  by (simp add: reached_def)

lemma reached_inv_settled:
  assumes "reached_inv start st" "(d, cur) \<in> set (pq st)"
  shows "reached_inv start (settled d cur st)"
  using assms unfolding reached_inv_def by (auto simp add: reached_settled dest: in_remove1D)

lemma tree_inv_settled:
  assumes "tree_inv net0 start st" "(d, cur) \<in> set (pq st)"
  shows "tree_inv net0 start (settled d cur st)"
proof -
  have "reached start st cur"
    using assms unfolding tree_inv_def reached_inv_def by force
  then show ?thesis
    using assms unfolding tree_inv_def
    by (simp add: keys_inv_settled net_inv_settled start_inv_settled links_inv_settled
        chains_inv_settled[where start = start and ?net0.0 = net0] reached_inv_settled)
qed

lemma tree_inv_continue:
  assumes "tree_inv net0 start st" "cur \<in> visited st"
  shows "tree_inv net0 start (st\<lparr>pq := remove1 (d, cur) (pq st)\<rparr>)"
proof -
  have k: "keys_inv net0 (st\<lparr>pq := remove1 (d, cur) (pq st)\<rparr>)"
    using assms unfolding tree_inv_def keys_inv_def by (auto dest: in_remove1D)
  have n: "net_inv net0 (st\<lparr>pq := remove1 (d, cur) (pq st)\<rparr>)"
    using assms unfolding tree_inv_def net_inv_def by simp
  have s: "start_inv start (st\<lparr>pq := remove1 (d, cur) (pq st)\<rparr>)"
    using assms unfolding tree_inv_def start_inv_def by auto
  have l: "links_inv net0 (st\<lparr>pq := remove1 (d, cur) (pq st)\<rparr>)"
    using assms unfolding tree_inv_def links_inv_def by simp
  have c: "chains_inv (st\<lparr>pq := remove1 (d, cur) (pq st)\<rparr>)"
    using assms unfolding tree_inv_def chains_inv_def by simp
  have r: "reached_inv start (st\<lparr>pq := remove1 (d, cur) (pq st)\<rparr>)"
    using assms unfolding tree_inv_def reached_inv_def
    by (auto simp add: reached_def dest: in_remove1D)
  show ?thesis using k n s l c r by (simp add: tree_inv_def)
qed

lemma tree_inv_iteration:
  assumes "tree_inv net0 start st" "iteration cw tw sw st = Inr st'"
  shows "tree_inv net0 start st'"
  using assms(2)
proof (cases rule: iteration_Inr_cases)
  case (continue d cur)
  then show ?thesis using tree_inv_continue[OF assms(1)] by simp
next
  case (settle d cur)
  have t: "tree_inv net0 start (settled d cur st)"
    using tree_inv_settled[OF assms(1) settle(1)] .
  have o: "outgoing (network st) cur = outgoing net0 cur"
    using assms(1) net_inv_outgoing by (simp add: tree_inv_def)
  have "start \<in> visited (settled d cur st)"
    using assms(1) settle(1) start_inv_settled by (simp add: tree_inv_def)
  then show ?thesis
    using tree_inv_relax_all[OF t _ _ _ settle(3)[unfolded o]] by simp
qed

lemma iteration_visited:
  assumes "tree_inv net0 start st" "iteration cw tw sw st = Inr st'"
  shows "(visited st' = visited st \<and> length (pq st') < length (pq st)) \<or>
         (\<exists>cur. cur |\<in>| stations net0 \<and> cur \<notin> visited st \<and> visited st' = insert cur (visited st))"
  using assms(2)
proof (cases rule: iteration_Inr_cases)
  case (continue d cur)
  then show ?thesis by (simp add: length_remove1) (cases "pq st"; simp)
next
  case (settle d cur)
  have t: "tree_inv net0 start (settled d cur st)"
    using tree_inv_settled[OF assms(1) settle(1)] .
  have o: "outgoing (network st) cur = outgoing net0 cur"
    using assms(1) net_inv_outgoing by (simp add: tree_inv_def)
  have "start \<in> visited (settled d cur st)"
    using assms(1) settle(1) start_inv_settled by (simp add: tree_inv_def)
  then have "visited st' = insert cur (visited st)"
    using tree_inv_relax_all[OF t _ _ _ settle(3)[unfolded o]] by simp
  moreover have "cur |\<in>| stations net0"
    using assms(1) settle(1) unfolding tree_inv_def keys_inv_def by force
  ultimately show ?thesis using settle(2) by blast
qed

lemma dijkstra_loop_tree_inv_aux:
  assumes "dijkstra_loop cw tw sw st = Some r"
  shows "\<forall>st'. r = Inr st' \<longrightarrow> tree_inv net0 start st \<longrightarrow> tree_inv net0 start st' \<and> pq st' = []"
  using assms
proof (induction cw tw sw st r rule: dijkstra_loop.raw_induct[rotated 1, consumes 1])
  case (1 loop cw tw sw st r)
  show ?case
  proof (intro allI impI)
    fix st' assume r: "r = Inr st'" and t: "tree_inv net0 start st"
    show "tree_inv net0 start st' \<and> pq st' = []"
    proof (cases "pq st = []")
      case True
      then show ?thesis using 1(2) r t by simp
    next
      case False
      then obtain st1 where st1: "iteration cw tw sw st = Inr st1" "loop cw tw sw st1 = Some r"
        using 1(2) r by (auto split: sum.splits)
      show ?thesis
        using 1(1)[OF st1(2)] r tree_inv_iteration[OF t st1(1)] by simp
    qed
  qed
qed

lemma dijkstra_loop_tree_inv:
  assumes "dijkstra_loop cw tw sw st = Some (Inr st')" "tree_inv net0 start st"
  shows "tree_inv net0 start st' \<and> pq st' = []"
  using dijkstra_loop_tree_inv_aux[OF assms(1)] assms(2) by simp

lemma tree_inv_initial:
  assumes "start |\<in>| stations net0"
  shows "tree_inv net0 start (initial net0 start)"
proof -
  have "keys_inv net0 (initial net0 start)"
    using assms by (auto simp add: keys_inv_def initial_def split: if_splits)
  moreover have "net_inv net0 (initial net0 start)"
    by (simp add: net_inv_def initial_def)
  moreover have "start_inv start (initial net0 start)"
    using assms by (simp add: start_inv_def initial_def)
  moreover have "links_inv net0 (initial net0 start)"
    by (simp add: links_inv_def initial_def)
  moreover have "chains_inv (initial net0 start)"
    by (simp add: chains_inv_def initial_def)
  moreover have "reached_inv start (initial net0 start)"
    by (auto simp add: reached_inv_def reached_def initial_def split: if_splits)
  ultimately show ?thesis by (simp add: tree_inv_def)
qed

lemma dijkstra_loop_terminates:
  assumes "tree_inv net0 start st"
  shows "\<exists>r. dijkstra_loop cw tw sw st = Some r"
proof -
  define R where "R = measures [\<lambda>st::locals. card (fset (stations net0) - visited st),
                                \<lambda>st. length (pq st)]"
  have "wf R" by (simp add: R_def)
  then show ?thesis using assms
  proof (induction st rule: wf_induct_rule)
    case (less st)
    show ?case
    proof (cases "pq st = []")
      case True
      then show ?thesis by (subst dijkstra_loop.simps) simp
    next
      case False
      show ?thesis
      proof (cases "iteration cw tw sw st")
        case (Inl e)
        then show ?thesis using False by (subst dijkstra_loop.simps) simp
      next
        case (Inr st1)
        have t: "tree_inv net0 start st1" using tree_inv_iteration[OF less.prems Inr] .
        have "(st1, st) \<in> R"
          using iteration_visited[OF less.prems Inr]
        proof
          assume "visited st1 = visited st \<and> length (pq st1) < length (pq st)"
          then show ?thesis by (simp add: R_def)
        next
          assume "\<exists>cur. cur |\<in>| stations net0 \<and> cur \<notin> visited st \<and>
              visited st1 = insert cur (visited st)"
          then obtain cur where c: "cur |\<in>| stations net0" "cur \<notin> visited st"
            "visited st1 = insert cur (visited st)" by blast
          have "fset (stations net0) - visited st1 = (fset (stations net0) - visited st) - {cur}"
            using c(3) by auto
          moreover have "card ((fset (stations net0) - visited st) - {cur}) <
              card (fset (stations net0) - visited st)"
            by (rule card_Diff1_less) (use c in simp_all)
          ultimately have "card (fset (stations net0) - visited st1) <
              card (fset (stations net0) - visited st)"
            by simp
          then show ?thesis by (simp add: R_def)
        qed
        then obtain r where "dijkstra_loop cw tw sw st1 = Some r"
          using less.IH t by blast
        then show ?thesis using False Inr by (subst dijkstra_loop.simps) simp
      qed
    qed
  qed
qed

section \<open>Paths along the predecessor links\<close>

lemma walk_chain:
  "chain prev (x # xs) \<Longrightarrow> walk prev (Some x) acc = Some (Inr (acc @ x # xs))"
proof (induction xs arbitrary: x acc)
  case Nil
  then show ?case by (subst walk.simps, subst walk.simps) simp
next
  case (Cons y ys)
  then have "walk prev (Some y) (acc @ [x]) = Some (Inr ((acc @ [x]) @ y # ys))"
    by simp
  then show ?case using Cons.prems by (subst walk.simps) simp
qed

lemma chain_last: "chain prev l \<Longrightarrow> prev (last l) = Some None"
  by (induction prev l rule: chain.induct) auto

lemma get_path_chain:
  assumes "chain prev (s # xs)" "last (s # xs) = start"
  shows "get_path start s prev = Some (Inr (rev (s # xs)))"
proof -
  have "rev (s # xs) = start # rev (butlast (s # xs))"
    using assms(2) by (metis append_butlast_last_id list.distinct(1) rev.simps(1) rev.simps(2) rev_append append_Cons append_Nil)
  then show ?thesis
    using walk_chain[OF assms(1), of "[]"] by (simp add: get_path_def)
qed

lemma final_chain:
  assumes "tree_inv net0 start st" "reached start st s"
  shows "\<exists>xs. chain (previous st) (s # xs) \<and> last (s # xs) = start"
proof (cases "\<exists>p. previous st s = Some (Some p)")
  case True
  then obtain p where p: "previous st s = Some (Some p)" by blast
  then have pv: "p \<in> visited st" using assms(1) by (simp add: tree_inv_def links_inv_def)
  then obtain ys where ys: "chain (previous st) (p # ys)" "set ys \<subseteq> visited st"
    using assms(1) by (auto simp add: tree_inv_def chains_inv_def)
  have "last (p # ys) \<in> visited st"
    using pv ys(2) last_in_set[of "p # ys"] by auto
  then have "reached start st (last (p # ys))"
    using assms(1) by (simp add: tree_inv_def reached_inv_def)
  moreover have "previous st (last (p # ys)) = Some None"
    using chain_last[OF ys(1)] .
  ultimately have "last (p # ys) = start" by (simp add: reached_def)
  then have "chain (previous st) (s # p # ys) \<and> last (s # p # ys) = start"
    using p ys(1) by simp
  then show ?thesis by blast
next
  case False
  then have "s = start" using assms(2) by (simp add: reached_def)
  then have "chain (previous st) [s] \<and> last [s] = start"
    using assms(1) by (simp add: tree_inv_def start_inv_def)
  then show ?thesis by blast
qed

lemma path_edges_snoc:
  "path_edges net (p @ [b]) = (path_edges net p \<and> (p = [] \<or> has_edge net (last p) b))"
  by (induction net p rule: path_edges.induct) auto

lemma chain_path_edges:
  assumes "links_inv net0 st"
  shows "chain (previous st) l \<Longrightarrow> path_edges net0 (rev l)"
proof (induction "previous st" l rule: chain.induct)
  case (3 x y rest)
  then have "has_edge net0 y x" using assms by (simp add: links_inv_def)
  moreover have "path_edges net0 (rev (y # rest))" using 3 by simp
  ultimately have "path_edges net0 (rev (y # rest) @ [x])"
    unfolding path_edges_snoc by simp
  then show ?case by simp
qed simp_all

lemma chain_stops:
  assumes "links_inv net0 st" "start_inv start st"
  shows "chain (previous st) l \<Longrightarrow> last l = start \<Longrightarrow>
         stops st (hd l) = Some (Fin (of_nat (length l - 1)))"
proof (induction "previous st" l rule: chain.induct)
  case (2 x)
  then show ?case using assms(2) by (simp add: start_inv_def)
next
  case (3 x y rest)
  then have y: "stops st y = Some (Fin (of_nat (length rest)))" by simp
  from 3 have "previous st x = Some (Some y)" by simp
  then obtain k where "stops st y = Some k" "stops st x = Some (py_add k (Fin 1))"
    using assms(1) unfolding links_inv_def by blast
  then show ?case using y by (auto simp add: add.commute)
qed simp

lemma py_int_of_nat: "py_int (Fin (of_nat n)) = Inr (int n)"
  by simp

lemma route_body_cases:
  assumes "route_body start res s acc = Some (Inr acc')"
  obtains (skip) "acc' = acc" "s = start \<or> (\<exists>d. distances res s = Some d \<and> py_eq d PInf)"
  | (entry) r where "s \<noteq> start" "is_route start res s r" "acc' = acc(s \<mapsto> r)"
proof (cases "s = start \<or> (\<exists>d. distances res s = Some d \<and> py_eq d PInf)")
  case True
  then have "acc' = acc"
    using assms by (auto simp add: route_body_def getitem_def split: if_splits)
  then show ?thesis using True skip by blast
next
  case False
  then obtain d where d: "s \<noteq> start" "distances res s = Some d" "\<not> py_eq d PInf"
    using assms by (auto simp add: route_body_def getitem_def split: if_splits option.splits)
  then obtain p c t k n where
    "get_path start s (previous res) = Some (Inr p)" "costs res s = Some c"
    "times res s = Some t" "stops res s = Some k" "py_int k = Inr n"
    "acc' = acc(s \<mapsto> \<lparr>path = p, total_cost = py_round c 2, total_time = py_round t 2,
                        total_stops = n, composite_score = py_round d 4\<rparr>)"
    using assms
    by (auto simp add: route_body_def getitem_Inr then_do_Inr getitem_def
        split: if_splits option.splits sum.splits)
  then show ?thesis using d entry[of "\<lparr>path = p, total_cost = py_round c 2, total_time = py_round t 2,
                        total_stops = n, composite_score = py_round d 4\<rparr>"]
    by (simp add: is_route_def)
qed

lemma routes_loop_sound:
  "routes_loop start res l acc = Some (Inr routes) \<Longrightarrow> routes x = Some r \<Longrightarrow>
   acc x = Some r \<or> (x \<in> set l \<and> x \<noteq> start \<and> is_route start res x r)"
proof (induction l arbitrary: acc)
  case Nil
  then show ?case by simp
next
  case (Cons s l)
  from Cons.prems(1) obtain acc1 where a: "route_body start res s acc = Some (Inr acc1)"
    "routes_loop start res l acc1 = Some (Inr routes)"
    by (auto split: option.splits sum.splits)
  from Cons.IH[OF a(2) Cons.prems(2)]
  have "acc1 x = Some r \<or> x \<in> set l \<and> x \<noteq> start \<and> is_route start res x r" .
  then show ?case
  proof
    assume x: "acc1 x = Some r"
    from a(1) show ?thesis
      by (cases rule: route_body_cases) (use x in \<open>auto split: if_splits\<close>)
  qed auto
qed

lemma routes_loop_dom:
  "routes_loop start res l acc = Some (Inr routes) \<Longrightarrow>
   dom routes = dom acc \<union>
     {x \<in> set l. x \<noteq> start \<and> (\<exists>d. distances res x = Some d \<and> \<not> py_eq d PInf)}"
proof (induction l arbitrary: acc)
  case Nil
  then show ?case by simp
next
  case (Cons s l)
  from Cons.prems(1) obtain acc1 where a: "route_body start res s acc = Some (Inr acc1)"
    "routes_loop start res l acc1 = Some (Inr routes)"
    by (auto split: option.splits sum.splits)
  have "dom acc1 = dom acc \<union>
     {x \<in> {s}. x \<noteq> start \<and> (\<exists>d. distances res x = Some d \<and> \<not> py_eq d PInf)}"
    using a(1) by (cases rule: route_body_cases) (auto simp add: is_route_def)
  then show ?case using Cons.IH[OF a(2)] by auto
qed

lemma route_body_total:
  assumes "s = start \<or> (\<exists>d. distances res s = Some d \<and> (py_eq d PInf \<or> (\<exists>r. is_route start res s r)))"
  shows "\<exists>acc'. route_body start res s acc = Some (Inr acc')"
  using assms
  by (auto simp add: route_body_def is_route_def getitem_def then_do_def)

lemma routes_loop_total:
  assumes "\<forall>s \<in> set l. s = start \<or>
     (\<exists>d. distances res s = Some d \<and> (py_eq d PInf \<or> (\<exists>r. is_route start res s r)))"
  shows "\<exists>routes. routes_loop start res l acc = Some (Inr routes)"
  using assms
proof (induction l arbitrary: acc)
  case Nil
  then show ?case by simp
next
  case (Cons s l)
  then obtain acc1 where "route_body start res s acc = Some (Inr acc1)"
    using route_body_total[of s start res acc] by auto
  then show ?case using Cons by simp
qed

section \<open>Outcomes of the two entry points\<close>

lemma relax_Inl:
  assumes "relax cw tw sw cur c st = Inl e" "keys_inv net0 st" "cur |\<in>| stations net0"
  shows "e = KeyError (destination c) \<and> destination c |\<notin>| stations net0"
proof -
  obtain cc t k where "costs st cur = Some cc" "times st cur = Some t" "stops st cur = Some k"
    using assms(2,3) unfolding keys_inv_def by (metis domD)
  then have "distances st (destination c) = None \<and> e = KeyError (destination c)"
    using assms(1)
    by (auto simp add: relax_def Let_def then_do_def getitem_def split: if_splits option.splits)
  then show ?thesis
    using assms(2) unfolding keys_inv_def by (metis domIff)
qed

lemma relax_all_Inl:
  assumes "relax_all cw tw sw cur es st = Inl e" "tree_inv net0 start st" "cur \<in> visited st"
    "start \<in> visited st" "set es \<subseteq> set (outgoing net0 cur)"
  shows "\<exists>c \<in> set es. e = KeyError (destination c) \<and> destination c |\<notin>| stations net0"
  using assms
proof (induction es arbitrary: st)
  case Nil
  then show ?case by simp
next
  case (Cons c es)
  have cur: "cur |\<in>| stations net0"
    using Cons.prems(2,3) unfolding tree_inv_def keys_inv_def by auto
  show ?case
  proof (cases "relax cw tw sw cur c st")
    case (Inl e')
    then have "e' = e" using Cons.prems(1) by simp
    then show ?thesis
      using relax_Inl[OF Inl _ cur] Cons.prems(2) by (simp add: tree_inv_def)
  next
    case (Inr st1)
    then have r: "relax_all cw tw sw cur es st1 = Inl e" using Cons.prems(1) by simp
    have "tree_inv net0 start st1 \<and> visited st1 = visited st"
      using tree_inv_relax[OF Cons.prems(2-4) _ Inr] Cons.prems(5) by simp
    then show ?thesis
      using Cons.IH[OF r] Cons.prems(3-5) by simp
  qed
qed

lemma iteration_Inl:
  assumes "iteration cw tw sw st = Inl (e, n)" "pq st \<noteq> []" "tree_inv net0 start st"
  shows "\<exists>d cur. net_inv net0 (settled d cur st) \<and> n = network (settled d cur st) \<and>
           insert cur (visited st) \<subseteq> fset (stations net0) \<and>
           (\<exists>c \<in> set (outgoing net0 cur). e = KeyError (destination c) \<and>
              destination c |\<notin>| stations net0)"
proof -
  obtain d cur where p: "(d, cur) \<in> set (pq st)" "cur \<notin> visited st"
    "n = network (settled d cur st)"
    "relax_all cw tw sw cur (outgoing (network st) cur) (settled d cur st) = Inl e"
    using assms(1,2)
    by (auto simp add: iteration_def settled_def outgoing_def Let_def
      split: sum.splits prod.splits if_splits dest!: heappop_Inr heappop_Inl)
  have t: "tree_inv net0 start (settled d cur st)"
    using tree_inv_settled[OF assms(3) p(1)] .
  have o: "outgoing (network st) cur = outgoing net0 cur"
    using assms(3) net_inv_outgoing by (simp add: tree_inv_def)
  have s: "start \<in> visited (settled d cur st)"
    using assms(3) p(1) start_inv_settled by (simp add: tree_inv_def)
  have "\<exists>c \<in> set (outgoing net0 cur). e = KeyError (destination c) \<and>
      destination c |\<notin>| stations net0"
    using relax_all_Inl[OF p(4)[unfolded o] t _ s] by simp
  moreover have "insert cur (visited st) \<subseteq> fset (stations net0)"
    using t unfolding tree_inv_def keys_inv_def by simp
  ultimately show ?thesis using t p(3) unfolding tree_inv_def by blast
qed

lemma dijkstra_loop_Inl_aux:
  assumes "dijkstra_loop cw tw sw st = Some r"
  shows "\<forall>e n. r = Inl (e, n) \<longrightarrow> tree_inv net0 start st \<longrightarrow>
           touched net0 n \<and>
           (\<exists>cur c. cur |\<in>| stations net0 \<and> c \<in> set (outgoing net0 cur) \<and>
              e = KeyError (destination c) \<and> destination c |\<notin>| stations net0)"
  using assms
proof (induction cw tw sw st r rule: dijkstra_loop.raw_induct[rotated 1, consumes 1])
  case (1 loop cw tw sw st r)
  show ?case
  proof (intro allI impI)
    fix e n assume r: "r = Inl (e, n)" and t: "tree_inv net0 start st"
    have ne: "pq st \<noteq> []" using 1(2) r by (auto split: if_splits)
    show "touched net0 n \<and>
           (\<exists>cur c. cur |\<in>| stations net0 \<and> c \<in> set (outgoing net0 cur) \<and>
              e = KeyError (destination c) \<and> destination c |\<notin>| stations net0)"
    proof (cases "iteration cw tw sw st")
      case (Inl x)
      then have "iteration cw tw sw st = Inl (e, n)" using 1(2) r ne by simp
      from iteration_Inl[OF this ne t] obtain d cur where
        h: "net_inv net0 (settled d cur st)" "n = network (settled d cur st)"
           "insert cur (visited st) \<subseteq> fset (stations net0)"
           "\<exists>c \<in> set (outgoing net0 cur). e = KeyError (destination c) \<and>
              destination c |\<notin>| stations net0"
        by blast
      have "touched net0 n"
        unfolding touched_def using h(1,2,3)
        by (intro exI[of _ "insert cur (visited st)"]) (simp add: net_inv_def)
      then show ?thesis using h(3,4) by auto
    next
      case (Inr st1)
      then have "loop cw tw sw st1 = Some r" using 1(2) ne by simp
      then show ?thesis
        using 1(1) r tree_inv_iteration[OF t Inr] by blast
    qed
  qed
qed

lemma tree_inv_touched: "tree_inv net0 start st \<Longrightarrow> touched net0 (network st)"
  unfolding tree_inv_def keys_inv_def net_inv_def touched_def by blast

lemma is_route_exists:
  assumes "tree_inv net0 start st" "distances st s = Some d" "\<not> py_eq d PInf"
  shows "\<exists>r xs. is_route start (results_of st) s r \<and> chain (previous st) (s # xs) \<and>
           last (s # xs) = start \<and> path r = rev (s # xs) \<and> total_stops r = int (length xs)"
proof -
  have "reached start st s"
    using assms unfolding tree_inv_def reached_inv_def by blast
  from final_chain[OF assms(1) this] obtain xs where
    xs: "chain (previous st) (s # xs)" "last (s # xs) = start" by blast
  have g: "get_path start s (previous st) = Some (Inr (rev (s # xs)))"
    using get_path_chain[OF xs] .
  have l: "links_inv net0 st" "start_inv start st"
    using assms(1) by (simp_all add: tree_inv_def)
  have k: "stops st s = Some (Fin (of_nat (length xs)))"
    using chain_stops[OF l xs] by simp
  have "s \<in> dom (distances st)" using assms(2) by blast
  then obtain c t where ct: "costs st s = Some c" "times st s = Some t"
    using assms(1) unfolding tree_inv_def keys_inv_def by (metis domD)
  define r where "r = \<lparr>path = rev (s # xs), total_cost = py_round c 2,
     total_time = py_round t 2, total_stops = int (length xs),
     composite_score = py_round d 4\<rparr>"
  have "is_route start (results_of st) s r"
    using assms(2,3) g k ct by (simp add: is_route_def results_of_def r_def)
  then show ?thesis using xs by (intro exI[of _ r] exI[of _ xs]) (simp add: r_def)
qed

lemma is_route_path:
  assumes "tree_inv net0 start st" "is_route start (results_of st) s r"
  shows "\<exists>xs. chain (previous st) (s # xs) \<and> last (s # xs) = start \<and>
           path r = rev (s # xs) \<and> total_stops r = int (length xs)"
proof -
  obtain d where d: "distances st s = Some d" "\<not> py_eq d PInf"
    using assms(2) by (auto simp add: is_route_def results_of_def)
  from is_route_exists[OF assms(1) d] obtain r' xs where
    h: "is_route start (results_of st) s r'" "chain (previous st) (s # xs)"
       "last (s # xs) = start" "path r' = rev (s # xs)" "total_stops r' = int (length xs)"
    by blast
  have "path r = path r'" "total_stops r = total_stops r'"
    using assms(2) h(1) by (auto simp add: is_route_def)
  then show ?thesis using h by auto
qed

lemma dijkstra_Some_cases:
  assumes "dijkstra_multi_criteria net start cw tw sw = Some (x, net')"
  obtains (unknown) "start |\<notin>| stations net" "x = Inl (ValueError (not_found start))" "net' = net"
  | (error) e where "start |\<in>| stations net" "x = Inl e"
      "dijkstra_loop cw tw sw (initial net start) = Some (Inl (e, net'))"
  | (ok) st where "start |\<in>| stations net" "x = Inr (results_of st)" "net' = network st"
      "dijkstra_loop cw tw sw (initial net start) = Some (Inr st)"
      "tree_inv net start st" "pq st = []"
proof (cases "start |\<in>| stations net")
  case False
  then have "x = Inl (ValueError (not_found start))" "net' = net"
    using assms by (simp_all add: dijkstra_multi_criteria_def)
  then show ?thesis using False by (rule unknown[rotated])
next
  case True
  note t = tree_inv_initial[OF True]
  show ?thesis
  proof (cases "dijkstra_loop cw tw sw (initial net start)")
    case None
    then show ?thesis using assms True by (simp add: dijkstra_multi_criteria_def)
  next
    case (Some r)
    show ?thesis
    proof (cases r)
      case (Inl en)
      obtain e n where en: "en = (e, n)" by (cases en)
      have "x = Inl e" "n = net'"
        using assms True Some Inl en by (simp_all add: dijkstra_multi_criteria_def)
      then show ?thesis using True Some Inl en by (intro error[of e]) simp_all
    next
      case (Inr st)
      have "x = Inr (results_of st)" "net' = network st"
        using assms True Some Inr by (simp_all add: dijkstra_multi_criteria_def)
      then show ?thesis
        using True Some Inr dijkstra_loop_tree_inv[OF _ t, of cw tw sw st]
        by (intro ok[of st]) simp_all
    qed
  qed
qed

lemma find_optimal_routes_Inr:
  assumes "find_optimal_routes net start cw tw sw = Some (Inr routes, net')"
  obtains st where "start |\<in>| stations net"
    "dijkstra_multi_criteria net start cw tw sw = Some (Inr (results_of st), net')"
    "tree_inv net start st" "pq st = []" "net' = network st"
    "routes_loop start (results_of st) (sorted_list_of_fset (stations net')) Map.empty
       = Some (Inr routes)"
proof -
  from assms obtain res where
    d: "dijkstra_multi_criteria net start cw tw sw = Some (Inr res, net')"
    and l: "routes_loop start res (sorted_list_of_fset (stations net')) Map.empty
       = Some (Inr routes)"
    by (auto simp add: find_optimal_routes_def split: option.splits sum.splits prod.splits)
  from d show ?thesis
    by (cases rule: dijkstra_Some_cases) (use that d l in auto)
qed

lemma route_entry:
  assumes "find_optimal_routes net start cw tw sw = Some (Inr routes, net')"
    "routes s = Some r"
  obtains st xs where "tree_inv net start st" "s |\<in>| stations net" "s \<noteq> start"
    "is_route start (results_of st) s r" "chain (previous st) (s # xs)"
    "last (s # xs) = start" "path r = rev (s # xs)" "total_stops r = int (length xs)"
proof -
  from assms(1) obtain st where st: "tree_inv net start st" "net' = network st"
    "routes_loop start (results_of st) (sorted_list_of_fset (stations net')) Map.empty
       = Some (Inr routes)"
    by (rule find_optimal_routes_Inr)
  have n: "stations net' = stations net"
    using st(1,2) by (simp add: tree_inv_def net_inv_def)
  from routes_loop_sound[OF st(3) assms(2)]
  have h: "s |\<in>| stations net" "s \<noteq> start" "is_route start (results_of st) s r"
    using n by auto
  from is_route_path[OF st(1) h(3)] show ?thesis using that st(1) h by blast
qed

section \<open>The routes that are returned\<close>

text \<open>The reference network, evaluated from Aluva with the default weights.\<close>

lemma kochi_run:
  obtains routes net' r where
    "find_optimal_routes KochiMetroNetwork ''Aluva'' (Fin (3 / 10)) (Fin (4 / 10)) (Fin (3 / 10))
       = Some (Inr routes, net')"
    "routes ''Pulinchodu'' = Some r"
    "path r = [''Aluva'', ''Pulinchodu'']" "total_cost r = Fin 5" "total_time r = Fin 3"
    "total_stops r = 1"
proof -
  have "(case find_optimal_routes KochiMetroNetwork ''Aluva'' (Fin (3 / 10)) (Fin (4 / 10)) (Fin (3 / 10)) of
           Some (Inr routes, net') \<Rightarrow>
             (case routes ''Pulinchodu'' of
                Some r \<Rightarrow> path r = [''Aluva'', ''Pulinchodu''] \<and> total_cost r = Fin 5 \<and>
                          total_time r = Fin 3 \<and> total_stops r = 1
              | None \<Rightarrow> False)
         | _ \<Rightarrow> False)"
    by code_simp
  then show ?thesis
    using that by (auto split: option.splits sum.splits prod.splits)
qed

lemma kochi_wf: "wf_network KochiMetroNetwork"
  by code_simp

lemma kochi_nonneg: "nonneg_network KochiMetroNetwork"
  by code_simp

text \<open>
  C1: whenever \<open>find_optimal_routes\<close> returns a mapping and the station \<open>s\<close> is one of its
  keys, the path of the entry is not empty, begins with the origin, ends with \<open>s\<close>, and
  every two consecutive stations of it are joined by an edge of the network.
\<close>

theorem paths_follow_edges:
  assumes "find_optimal_routes net start cw tw sw = Some (Inr routes, net')"
    and "routes s = Some r"
  shows "path r \<noteq> [] \<and> hd (path r) = start \<and> last (path r) = s \<and> path_edges net (path r)"
  using assms
proof (rule route_entry)
  fix st xs
  assume t: "tree_inv net start st" and c: "chain (previous st) (s # xs)"
    and l: "last (s # xs) = start" and p: "path r = rev (s # xs)"
  have "path_edges net (rev (s # xs))"
    using chain_path_edges[OF _ c] t by (simp add: tree_inv_def)
  moreover have "hd (rev (s # xs)) = start" using l hd_rev[of "s # xs"] by simp
  ultimately show ?thesis using p by simp
qed

text \<open>C1 on the reference network, for the route from Aluva to Pulinchodu.\<close>

theorem paths_follow_edges_witness:
  "\<exists>routes net' r.
     find_optimal_routes KochiMetroNetwork ''Aluva'' (Fin (3 / 10)) (Fin (4 / 10)) (Fin (3 / 10))
       = Some (Inr routes, net') \<and>
     routes ''Pulinchodu'' = Some r \<and>
     path r \<noteq> [] \<and> hd (path r) = ''Aluva'' \<and> last (path r) = ''Pulinchodu'' \<and>
     path_edges KochiMetroNetwork (path r)"
proof -
  obtain routes net' r where
    h: "find_optimal_routes KochiMetroNetwork ''Aluva'' (Fin (3 / 10)) (Fin (4 / 10)) (Fin (3 / 10))
       = Some (Inr routes, net')" "routes ''Pulinchodu'' = Some r"
    by (rule kochi_run)
  from paths_follow_edges[OF h] show ?thesis using h by blast
qed

text \<open>
  C8: for every destination of the returned mapping, the reported number of stops is the
  length of the reported path minus one.
\<close>

theorem stops_is_path_length:
  assumes "find_optimal_routes net start cw tw sw = Some (Inr routes, net')"
    and "routes s = Some r"
  shows "total_stops r = int (length (path r)) - 1"
  using assms by (rule route_entry) simp

text \<open>C8 on the reference network, for the route from Aluva to Pulinchodu.\<close>

theorem stops_is_path_length_witness:
  "\<exists>routes net' r.
     find_optimal_routes KochiMetroNetwork ''Aluva'' (Fin (3 / 10)) (Fin (4 / 10)) (Fin (3 / 10))
       = Some (Inr routes, net') \<and>
     routes ''Pulinchodu'' = Some r \<and> total_stops r = int (length (path r)) - 1"
proof -
  obtain routes net' r where
    h: "find_optimal_routes KochiMetroNetwork ''Aluva'' (Fin (3 / 10)) (Fin (4 / 10)) (Fin (3 / 10))
       = Some (Inr routes, net')" "routes ''Pulinchodu'' = Some r"
    by (rule kochi_run)
  from stops_is_path_length[OF h] show ?thesis using h by blast
qed

text \<open>
  C2: on the network that the constructor builds, the routes from Aluva with the weights
  0.3, 0.4 and 0.3 have an entry for Pulinchodu with the path Aluva, Pulinchodu, the total
  cost 5.0, the total time 3.0 and one stop.
\<close>

theorem reference_scenario:
  "\<exists>routes net' r.
     find_optimal_routes KochiMetroNetwork ''Aluva'' (Fin (3 / 10)) (Fin (4 / 10)) (Fin (3 / 10))
       = Some (Inr routes, net') \<and>
     routes ''Pulinchodu'' = Some r \<and>
     path r = [''Aluva'', ''Pulinchodu''] \<and> total_cost r = Fin 5 \<and> total_time r = Fin 3 \<and>
     total_stops r = 1"
  using kochi_run by metis

lemma get_path_Inr:
  assumes "get_path start e prev = Some (Inr p)"
  shows "p = [] \<or> hd p = start"
  using assms by (auto simp add: get_path_def split: option.splits sum.splits list.splits if_splits)

text \<open>
  C7: \<open>find_optimal_routes\<close> never emits an entry whose path is empty or does not start at
  the origin: the path of every entry is what \<open>get_path\<close> returned for the predecessor
  table of the search, it is not empty and its first station is the origin.  (The branch
  of \<open>get_path\<close> that returns the empty list is never taken on that table.)
\<close>

theorem no_malformed_path:
  assumes "find_optimal_routes net start cw tw sw = Some (Inr routes, net')"
    and "routes s = Some r"
  shows "path r \<noteq> [] \<and> hd (path r) = start \<and>
         (\<exists>res net''. dijkstra_multi_criteria net start cw tw sw = Some (Inr res, net'') \<and>
            get_path start s (previous res) = Some (Inr (path r)))"
proof -
  from assms(1) obtain st where st: "tree_inv net start st"
    "dijkstra_multi_criteria net start cw tw sw = Some (Inr (results_of st), net')"
    "routes_loop start (results_of st) (sorted_list_of_fset (stations net')) Map.empty
       = Some (Inr routes)"
    by (rule find_optimal_routes_Inr)
  from routes_loop_sound[OF st(3) assms(2)]
  have r: "is_route start (results_of st) s r" by simp
  then have g: "get_path start s (previous (results_of st)) = Some (Inr (path r))"
    by (simp add: is_route_def)
  from is_route_path[OF st(1) r] obtain xs where
    "last (s # xs) = start" "path r = rev (s # xs)" by blast
  then have "path r \<noteq> [] \<and> hd (path r) = start" using hd_rev[of "s # xs"] by simp
  then show ?thesis using st(2) g by blast
qed

text \<open>C7 on the reference network, for the route from Aluva to Pulinchodu.\<close>

theorem no_malformed_path_witness:
  "\<exists>routes net' r.
     find_optimal_routes KochiMetroNetwork ''Aluva'' (Fin (3 / 10)) (Fin (4 / 10)) (Fin (3 / 10))
       = Some (Inr routes, net') \<and>
     routes ''Pulinchodu'' = Some r \<and> path r \<noteq> [] \<and> hd (path r) = ''Aluva'' \<and>
     (\<exists>res net''.
        dijkstra_multi_criteria KochiMetroNetwork ''Aluva'' (Fin (3 / 10)) (Fin (4 / 10)) (Fin (3 / 10))
          = Some (Inr res, net'') \<and>
        get_path ''Aluva'' ''Pulinchodu'' (previous res) = Some (Inr (path r)))"
proof -
  obtain routes net' r where
    h: "find_optimal_routes KochiMetroNetwork ''Aluva'' (Fin (3 / 10)) (Fin (4 / 10)) (Fin (3 / 10))
       = Some (Inr routes, net')" "routes ''Pulinchodu'' = Some r"
    by (rule kochi_run)
  from no_malformed_path[OF h] show ?thesis using h by blast
qed

section \<open>Termination, errors and the network after a call\<close>

lemma routes_loop_final:
  assumes "tree_inv net start st" "set l \<subseteq> fset (stations net)"
  shows "\<exists>routes. routes_loop start (results_of st) l Map.empty = Some (Inr routes)"
proof (rule routes_loop_total, rule ballI)
  fix s assume "s \<in> set l"
  then have "s \<in> dom (distances st)"
    using assms unfolding tree_inv_def keys_inv_def by auto
  then obtain d where d: "distances st s = Some d" by blast
  show "s = start \<or> (\<exists>d. distances (results_of st) s = Some d \<and>
          (py_eq d PInf \<or> (\<exists>r. is_route start (results_of st) s r)))"
  proof (cases "py_eq d PInf")
    case True
    then show ?thesis using d by (simp add: results_of_def)
  next
    case False
    from is_route_exists[OF assms(1) d False] show ?thesis
      using d by (auto simp add: results_of_def)
  qed
qed

lemma find_optimal_routes_of_dijkstra:
  assumes "dijkstra_multi_criteria net start cw tw sw = Some (x, net')"
  shows "(\<exists>e. x = Inl e \<and> find_optimal_routes net start cw tw sw = Some (Inl e, net')) \<or>
         (\<exists>res routes. x = Inr res \<and>
            find_optimal_routes net start cw tw sw = Some (Inr routes, net'))"
  using assms
proof (cases rule: dijkstra_Some_cases)
  case unknown
  then show ?thesis using assms by (simp add: find_optimal_routes_def)
next
  case (error e)
  then show ?thesis using assms by (simp add: find_optimal_routes_def)
next
  case (ok st)
  have "stations net' = stations net"
    using ok(3,5) by (simp add: tree_inv_def net_inv_def)
  then obtain routes where
    "routes_loop start (results_of st) (sorted_list_of_fset (stations net')) Map.empty
       = Some (Inr routes)"
    using routes_loop_final[OF ok(5), of "sorted_list_of_fset (stations net')"] by auto
  then show ?thesis using assms ok(2) by (simp add: find_optimal_routes_def)
qed

lemma dijkstra_terminates: "\<exists>x net'. dijkstra_multi_criteria net start cw tw sw = Some (x, net')"
proof (cases "start |\<in>| stations net")
  case False
  then show ?thesis by (simp add: dijkstra_multi_criteria_def)
next
  case True
  from dijkstra_loop_terminates[OF tree_inv_initial[OF True]]
  obtain r where "dijkstra_loop cw tw sw (initial net start) = Some r" by blast
  then show ?thesis using True
    by (cases r) (auto simp add: dijkstra_multi_criteria_def)
qed

lemma dijkstra_wf_ok:
  assumes "start |\<in>| stations net" "wf_network net"
  shows "\<exists>res net'. dijkstra_multi_criteria net start cw tw sw = Some (Inr res, net')"
proof -
  obtain x net' where d: "dijkstra_multi_criteria net start cw tw sw = Some (x, net')"
    using dijkstra_terminates by blast
  from d show ?thesis
  proof (cases rule: dijkstra_Some_cases)
    case unknown
    then show ?thesis using assms(1) by simp
  next
    case (error e)
    from dijkstra_loop_Inl_aux[OF error(3), of net start] tree_inv_initial[OF assms(1)]
    obtain cur c where "cur |\<in>| stations net" "c \<in> set (outgoing net cur)"
      "destination c |\<notin>| stations net" by blast
    then show ?thesis using assms(2) unfolding wf_network_def by blast
  next
    case (ok st)
    then show ?thesis using d by blast
  qed
qed

text \<open>
  C10: \<open>dijkstra_multi_criteria\<close> and \<open>find_optimal_routes\<close> end on every network and for
  every origin and weights (the station set of a network is finite): the loop over the
  heap and the walks along the predecessor links all come to an end.
\<close>

theorem always_terminates:
  "(\<exists>r. dijkstra_multi_criteria net start cw tw sw = Some r) \<and>
   (\<exists>r. find_optimal_routes net start cw tw sw = Some r)"
proof -
  obtain x net' where d: "dijkstra_multi_criteria net start cw tw sw = Some (x, net')"
    using dijkstra_terminates by blast
  from find_optimal_routes_of_dijkstra[OF d] show ?thesis using d by auto
qed

text \<open>
  C4, as the code has it.  An origin outside the station set makes both entry points raise
  the \<open>ValueError\<close> whose message names the station, before anything else is done: the
  network is returned as it was given.  On a network whose edges all end at registered
  stations, an origin of the station set never raises, whatever the three weights are.
\<close>

theorem unknown_origin_is_the_only_error:
  "(start |\<notin>| stations net \<longrightarrow>
      dijkstra_multi_criteria net start cw tw sw =
        Some (Inl (ValueError (''Station '' @ [CHR 0x27] @ start @ [CHR 0x27] @
                                '' not found in the network'')), net) \<and>
      find_optimal_routes net start cw tw sw =
        Some (Inl (ValueError (''Station '' @ [CHR 0x27] @ start @ [CHR 0x27] @
                                '' not found in the network'')), net)) \<and>
   (start |\<in>| stations net \<and> wf_network net \<longrightarrow>
      (\<exists>res net'. dijkstra_multi_criteria net start cw tw sw = Some (Inr res, net')) \<and>
      (\<exists>routes net'. find_optimal_routes net start cw tw sw = Some (Inr routes, net')))"
proof (intro conjI impI)
  assume "start |\<notin>| stations net"
  then show "dijkstra_multi_criteria net start cw tw sw =
        Some (Inl (ValueError (''Station '' @ [CHR 0x27] @ start @ [CHR 0x27] @
                                '' not found in the network'')), net)"
    by (simp add: dijkstra_multi_criteria_def not_found_def)
  then show "find_optimal_routes net start cw tw sw =
        Some (Inl (ValueError (''Station '' @ [CHR 0x27] @ start @ [CHR 0x27] @
                                '' not found in the network'')), net)"
    by (simp add: find_optimal_routes_def)
next
  assume a: "start |\<in>| stations net \<and> wf_network net"
  then obtain res net' where d: "dijkstra_multi_criteria net start cw tw sw = Some (Inr res, net')"
    using dijkstra_wf_ok by blast
  then show "\<exists>res net'. dijkstra_multi_criteria net start cw tw sw = Some (Inr res, net')"
    by blast
  from find_optimal_routes_of_dijkstra[OF d]
  show "\<exists>routes net'. find_optimal_routes net start cw tw sw = Some (Inr routes, net')"
    by auto
qed

lemma kochi_members:
  "''Aluva'' |\<in>| stations KochiMetroNetwork" "''NotAStation'' |\<notin>| stations KochiMetroNetwork"
  by code_simp+

text \<open>C4 on the reference network: an unknown origin, and a known one with weights that are
  not a number, minus infinity and negative.\<close>

theorem unknown_origin_is_the_only_error_witness:
  "''NotAStation'' |\<notin>| stations KochiMetroNetwork \<and>
   find_optimal_routes KochiMetroNetwork ''NotAStation'' (Fin (3 / 10)) (Fin (4 / 10)) (Fin (3 / 10)) =
     Some (Inl (ValueError ''Station 'NotAStation' not found in the network''), KochiMetroNetwork) \<and>
   ''Aluva'' |\<in>| stations KochiMetroNetwork \<and> wf_network KochiMetroNetwork \<and>
   (\<exists>routes net'. find_optimal_routes KochiMetroNetwork ''Aluva'' NaN NInf (Fin (- 7)) =
      Some (Inr routes, net'))"
  using unknown_origin_is_the_only_error[of "''NotAStation''" KochiMetroNetwork
      "Fin (3 / 10)" "Fin (4 / 10)" "Fin (3 / 10)"]
    unknown_origin_is_the_only_error[of "''Aluva''" KochiMetroNetwork NaN NInf "Fin (- 7)"]
    kochi_members kochi_wf
  by simp

text \<open>
  C4, as the claim states it, fails: with an edge from Aluva to a station that is not
  registered, the origin Aluva is in the station set and the call raises a \<open>KeyError\<close>.
\<close>

theorem key_error_counterexample:
  "''Aluva'' |\<in>| stations with_airport_edge \<and>
   raised (find_optimal_routes with_airport_edge ''Aluva''
       (Fin (3 / 10)) (Fin (4 / 10)) (Fin (3 / 10))) = Some (KeyError ''Airport'')"
  by code_simp

text \<open>
  C6, as the code has it.  A station is a key of the returned mapping exactly when it is a
  registered station other than the origin whose score in the tables of the search is not
  \<open>inf\<close>; and on every network whose edges all end at registered stations, connected or
  not, a call from a registered origin returns a mapping and no error.
\<close>

theorem mapping_keys_are_reached_stations:
  "(start |\<in>| stations net \<and> wf_network net \<longrightarrow>
      (\<exists>routes net'. find_optimal_routes net start cw tw sw = Some (Inr routes, net'))) \<and>
   (find_optimal_routes net start cw tw sw = Some (Inr routes, net') \<longrightarrow>
      (\<exists>res. dijkstra_multi_criteria net start cw tw sw = Some (Inr res, net') \<and>
         (\<forall>s. (routes s \<noteq> None) =
              (s |\<in>| stations net \<and> s \<noteq> start \<and>
               (\<exists>d. distances res s = Some d \<and> \<not> py_eq d PInf)))))"
proof (intro conjI impI)
  assume a: "start |\<in>| stations net \<and> wf_network net"
  then obtain res net' where d: "dijkstra_multi_criteria net start cw tw sw = Some (Inr res, net')"
    using dijkstra_wf_ok by blast
  from find_optimal_routes_of_dijkstra[OF d]
  show "\<exists>routes net'. find_optimal_routes net start cw tw sw = Some (Inr routes, net')"
    by auto
next
  assume f: "find_optimal_routes net start cw tw sw = Some (Inr routes, net')"
  then obtain st where st: "tree_inv net start st" "net' = network st"
    "dijkstra_multi_criteria net start cw tw sw = Some (Inr (results_of st), net')"
    "routes_loop start (results_of st) (sorted_list_of_fset (stations net')) Map.empty
       = Some (Inr routes)"
    by (rule find_optimal_routes_Inr)
  have n: "stations net' = stations net"
    using st(1,2) by (simp add: tree_inv_def net_inv_def)
  have "dom routes = {x \<in> fset (stations net). x \<noteq> start \<and>
      (\<exists>d. distances (results_of st) x = Some d \<and> \<not> py_eq d PInf)}"
    using routes_loop_dom[OF st(4)] n by simp
  then have "\<forall>s. (routes s \<noteq> None) =
              (s |\<in>| stations net \<and> s \<noteq> start \<and>
               (\<exists>d. distances (results_of st) s = Some d \<and> \<not> py_eq d PInf))"
    by (auto simp add: dom_def)
  then show "\<exists>res. dijkstra_multi_criteria net start cw tw sw = Some (Inr res, net') \<and>
         (\<forall>s. (routes s \<noteq> None) =
              (s |\<in>| stations net \<and> s \<noteq> start \<and>
               (\<exists>d. distances res s = Some d \<and> \<not> py_eq d PInf)))"
    using st(3) by blast
qed

text \<open>
  C9, as the code has it.  After a call the station set, the station info and the edges
  leaving every station (with all their attributes) are what they were.  An entry of the
  adjacency dict is either unchanged or it is new, for a registered station that had no
  entry, and holds the empty list.  When every registered station has an entry, the network
  after the call is the network before it.
\<close>

theorem network_is_only_touched:
  assumes "find_optimal_routes net start cw tw sw = Some (x, net')"
  shows "stations net' = stations net \<and> station_info net' = station_info net \<and>
         (\<forall>s. outgoing net' s = outgoing net s) \<and>
         (\<forall>s. graph net' s = graph net s \<or>
              (s |\<in>| stations net \<and> graph net s = None \<and> graph net' s = Some [])) \<and>
         ((\<forall>s |\<in>| stations net. graph net s \<noteq> None) \<longrightarrow> net' = net)"
proof -
  have "\<exists>y. dijkstra_multi_criteria net start cw tw sw = Some (y, net')"
    using assms by (auto simp add: find_optimal_routes_def split: option.splits sum.splits prod.splits)
  then obtain y where d: "dijkstra_multi_criteria net start cw tw sw = Some (y, net')" by blast
  have t: "touched net net'"
    using d
  proof (cases rule: dijkstra_Some_cases)
    case unknown
    then show ?thesis by (auto simp add: touched_def intro!: exI[of _ "{}"])
  next
    case (error e)
    from dijkstra_loop_Inl_aux[OF error(3), of net start] tree_inv_initial[OF error(1)]
    show ?thesis by blast
  next
    case (ok st)
    then show ?thesis using tree_inv_touched by blast
  qed
  then obtain V where V: "V \<subseteq> fset (stations net)"
    "net' = net\<lparr>graph := (\<lambda>s. if s \<in> V \<and> graph net s = None then Some [] else graph net s)\<rparr>"
    unfolding touched_def by blast
  have "(\<forall>s |\<in>| stations net. graph net s \<noteq> None) \<longrightarrow> net' = net"
  proof
    assume "\<forall>s |\<in>| stations net. graph net s \<noteq> None"
    then have "(\<lambda>s. if s \<in> V \<and> graph net s = None then Some [] else graph net s) = graph net"
      using V(1) by (auto simp add: fun_eq_iff)
    then show "net' = net" using V(2) by simp
  qed
  moreover have "\<forall>s. outgoing net' s = outgoing net s"
    using V(2) by (simp add: outgoing_def defaultdict_getitem_fst)
  moreover have "\<forall>s. graph net' s = graph net s \<or>
              (s |\<in>| stations net \<and> graph net s = None \<and> graph net' s = Some [])"
    using V by auto
  ultimately show ?thesis using V(2) by simp
qed

text \<open>A network with a station that no edge reaches, evaluated from Aluva.\<close>

lemma isolated_run:
  obtains routes net' where
    "find_optimal_routes with_isolated_airport ''Aluva'' (Fin (3 / 10)) (Fin (4 / 10)) (Fin (3 / 10))
       = Some (Inr routes, net')"
    "routes ''Airport'' = None" "routes ''Pulinchodu'' \<noteq> None" "routes ''Aluva'' = None"
proof -
  have "(case find_optimal_routes with_isolated_airport ''Aluva'' (Fin (3 / 10)) (Fin (4 / 10)) (Fin (3 / 10)) of
           Some (Inr routes, net') \<Rightarrow>
             routes ''Airport'' = None \<and> routes ''Pulinchodu'' \<noteq> None \<and> routes ''Aluva'' = None
         | _ \<Rightarrow> False)"
    by code_simp
  then show ?thesis
    using that by (auto split: option.splits sum.splits prod.splits)
qed

lemma isolated_wf:
  "wf_network with_isolated_airport" "''Aluva'' |\<in>| stations with_isolated_airport"
  "''Airport'' |\<in>| stations with_isolated_airport"
  by code_simp+

text \<open>C6 on a network that is not connected: the call returns a mapping, Pulinchodu is a
  key of it, and the registered station that was never reached is not.\<close>

theorem mapping_keys_are_reached_stations_witness:
  "''Aluva'' |\<in>| stations with_isolated_airport \<and> wf_network with_isolated_airport \<and>
   (\<exists>routes net' res.
      find_optimal_routes with_isolated_airport ''Aluva'' (Fin (3 / 10)) (Fin (4 / 10)) (Fin (3 / 10))
        = Some (Inr routes, net') \<and>
      dijkstra_multi_criteria with_isolated_airport ''Aluva'' (Fin (3 / 10)) (Fin (4 / 10)) (Fin (3 / 10))
        = Some (Inr res, net') \<and>
      routes ''Pulinchodu'' \<noteq> None \<and>
      (\<exists>d. distances res ''Pulinchodu'' = Some d \<and> \<not> py_eq d PInf) \<and>
      ''Airport'' |\<in>| stations with_isolated_airport \<and> routes ''Airport'' = None \<and>
      \<not> (\<exists>d. distances res ''Airport'' = Some d \<and> \<not> py_eq d PInf))"
proof -
  obtain routes net' where
    h: "find_optimal_routes with_isolated_airport ''Aluva'' (Fin (3 / 10)) (Fin (4 / 10)) (Fin (3 / 10))
       = Some (Inr routes, net')"
    "routes ''Airport'' = None" "routes ''Pulinchodu'' \<noteq> None"
    by (rule isolated_run)
  have "\<exists>res. dijkstra_multi_criteria with_isolated_airport ''Aluva'' (Fin (3 / 10)) (Fin (4 / 10)) (Fin (3 / 10))
        = Some (Inr res, net') \<and>
    (\<forall>s. (routes s \<noteq> None) =
              (s |\<in>| stations with_isolated_airport \<and> s \<noteq> ''Aluva'' \<and>
               (\<exists>d. distances res s = Some d \<and> \<not> py_eq d PInf)))"
    using mapping_keys_are_reached_stations[of "''Aluva''" with_isolated_airport
      "Fin (3 / 10)" "Fin (4 / 10)" "Fin (3 / 10)" routes net'] h(1)
    by simp
  then obtain res where
    r: "dijkstra_multi_criteria with_isolated_airport ''Aluva'' (Fin (3 / 10)) (Fin (4 / 10)) (Fin (3 / 10))
        = Some (Inr res, net')"
    and k: "\<And>s. (routes s \<noteq> None) =
              (s |\<in>| stations with_isolated_airport \<and> s \<noteq> ''Aluva'' \<and>
               (\<exists>d. distances res s = Some d \<and> \<not> py_eq d PInf))"
    by blast
  have p: "\<exists>d. distances res ''Pulinchodu'' = Some d \<and> \<not> py_eq d PInf"
    using k[of "''Pulinchodu''"] h(3) by simp
  have ne: "''Airport'' \<noteq> ''Aluva''" by simp
  have a: "\<not> (\<exists>d. distances res ''Airport'' = Some d \<and> \<not> py_eq d PInf)"
    using k[of "''Airport''"] h(2) isolated_wf(3) ne by simp
  show ?thesis
    using h r p a isolated_wf by (intro conjI exI[of _ routes] exI[of _ net'] exI[of _ res])
qed

lemma kochi_entries: "\<forall>s |\<in>| stations KochiMetroNetwork. graph KochiMetroNetwork s \<noteq> None"
  by code_simp

text \<open>C9 on the reference network, where every station has an entry: the network after the
  call from Aluva is the network of the constructor.\<close>

theorem network_is_only_touched_witness:
  "\<exists>x. find_optimal_routes KochiMetroNetwork ''Aluva'' (Fin (3 / 10)) (Fin (4 / 10)) (Fin (3 / 10))
     = Some (x, KochiMetroNetwork)"
proof -
  obtain routes net' where
    h: "find_optimal_routes KochiMetroNetwork ''Aluva'' (Fin (3 / 10)) (Fin (4 / 10)) (Fin (3 / 10))
       = Some (Inr routes, net')"
    by (rule kochi_run)
  from network_is_only_touched[OF h] kochi_entries have "net' = KochiMetroNetwork" by blast
  then show ?thesis using h by blast
qed

text \<open>
  C9, as the claim states it, fails: a registered station without an entry in the
  adjacency dict gets one when it is settled, so the set of keys grows.
\<close>

theorem network_unchanged_counterexample:
  "map_option snd (find_optimal_routes with_isolated_airport ''Airport''
       (Fin (3 / 10)) (Fin (4 / 10)) (Fin (3 / 10))) \<noteq> Some with_isolated_airport"
proof
  assume a: "map_option snd (find_optimal_routes with_isolated_airport ''Airport''
       (Fin (3 / 10)) (Fin (4 / 10)) (Fin (3 / 10))) = Some with_isolated_airport"
  have "(case find_optimal_routes with_isolated_airport ''Airport''
       (Fin (3 / 10)) (Fin (4 / 10)) (Fin (3 / 10)) of
          Some (x, n) \<Rightarrow> graph n ''Airport'' = Some [] | None \<Rightarrow> False)"
    by code_simp
  then have "graph with_isolated_airport ''Airport'' = Some []"
    using a by (auto split: option.splits prod.splits)
  moreover have "graph with_isolated_airport ''Airport'' = None"
    by code_simp
  ultimately show False by simp
qed

section \<open>Scores along the paths\<close>

lemma nonneg_cases: "nonneg x \<longleftrightarrow> (\<exists>r. x = Fin r \<and> 0 \<le> r) \<or> x = PInf"
  by (cases x) (auto simp add: nonneg_def py_le_def)

lemma py_lt_left: "py_lt X x \<Longrightarrow> X = NInf \<or> (\<exists>q. X = Fin q)"
  by (cases X; cases x) simp_all

lemma py_add_Fin: "py_add P Q = Fin q \<Longrightarrow> \<exists>p q'. P = Fin p \<and> Q = Fin q' \<and> q = p + q'"
  by (cases P; cases Q) simp_all

lemma py_add_NInf: "py_add P Q = NInf \<Longrightarrow> P = NInf \<or> Q = NInf"
  by (cases P; cases Q) simp_all

lemma py_mul_nonneg_NInf:
  "nonneg w \<Longrightarrow> nonneg x \<Longrightarrow> 0 < c \<Longrightarrow> py_mul w (truediv x c) \<noteq> NInf"
  unfolding nonneg_cases by (auto split: if_splits simp add: zero_less_divide_iff)

lemma py_mul_nonneg_Fin:
  "py_mul w (truediv x c) = Fin q \<Longrightarrow> \<exists>a r. w = Fin a \<and> x = Fin r \<and> q = a * (r / c)"
  by (cases w; cases x) (auto split: if_splits)

lemma nonneg_add: "nonneg x \<Longrightarrow> nonneg y \<Longrightarrow> nonneg (py_add x y)"
  unfolding nonneg_cases by auto

lemma blend_mono:
  fixes a b e c t k u v :: rat
  assumes "0 \<le> a" "0 \<le> b" "0 \<le> e" "0 \<le> u" "0 \<le> v"
  shows "a * (c / 100) + b * (t / 60) + e * (k / 25)
           \<le> a * ((c + u) / 100) + b * ((t + v) / 60) + e * ((k + 1) / 25)"
proof -
  have "a * (c / 100) \<le> a * ((c + u) / 100)"
    using assms by (intro mult_left_mono divide_right_mono) auto
  moreover have "b * (t / 60) \<le> b * ((t + v) / 60)"
    using assms by (intro mult_left_mono divide_right_mono) auto
  moreover have "e * (k / 25) \<le> e * ((k + 1) / 25)"
    using assms by (intro mult_left_mono divide_right_mono) auto
  ultimately show ?thesis by linarith
qed

lemma relax_score:
  assumes w: "nonneg cw" "nonneg tw" "nonneg sw" and ed: "nonneg ec" "nonneg et"
    and pos: "0 \<le> c" "0 \<le> t" "0 \<le> k" and b: "score_bound cw tw sw d c t k"
    and lt: "py_lt (composite cw tw sw (py_add (Fin c) ec) (py_add (Fin t) et)
                 (py_add (Fin k) (Fin 1))) x"
  shows "\<exists>c' t' d'. py_add (Fin c) ec = Fin c' \<and> py_add (Fin t) et = Fin t' \<and>
           composite cw tw sw (py_add (Fin c) ec) (py_add (Fin t) et) (py_add (Fin k) (Fin 1)) = Fin d' \<and>
           0 \<le> c' \<and> 0 \<le> t' \<and> d \<le> d' \<and> score_bound cw tw sw d' c' t' (k + 1)"
proof -
  let ?nc = "py_add (Fin c) ec" and ?nt = "py_add (Fin t) et" and ?nk = "py_add (Fin k) (Fin 1)"
  let ?A = "py_mul cw (truediv ?nc 100)" and ?B = "py_mul tw (truediv ?nt 60)"
    and ?C = "py_mul sw (truediv ?nk 25)"
  have comp: "composite cw tw sw ?nc ?nt ?nk = py_add (py_add ?A ?B) ?C"
    by (simp add: composite_def)
  have nn: "nonneg ?nc" "nonneg ?nt" "nonneg ?nk"
    using ed pos by (auto intro!: nonneg_add simp add: nonneg_cases)
  have "?A \<noteq> NInf" by (rule py_mul_nonneg_NInf[OF w(1) nn(1)]) simp
  moreover have "?B \<noteq> NInf" by (rule py_mul_nonneg_NInf[OF w(2) nn(2)]) simp
  moreover have "?C \<noteq> NInf" by (rule py_mul_nonneg_NInf[OF w(3) nn(3)]) simp
  ultimately have "py_add (py_add ?A ?B) ?C \<noteq> NInf"
    using py_add_NInf by blast
  then obtain d' where d': "py_add (py_add ?A ?B) ?C = Fin d'"
    using py_lt_left[OF lt] comp by auto
  from py_add_Fin[OF d'] obtain ab q3 where ab: "py_add ?A ?B = Fin ab" "?C = Fin q3" "d' = ab + q3"
    by blast
  from py_add_Fin[OF ab(1)] obtain q1 q2 where q: "?A = Fin q1" "?B = Fin q2" "ab = q1 + q2"
    by blast
  from py_mul_nonneg_Fin[OF q(1)] obtain a c' where 1: "cw = Fin a" "?nc = Fin c'" "q1 = a * (c' / 100)"
    by blast
  from py_mul_nonneg_Fin[OF q(2)] obtain b' t' where 2: "tw = Fin b'" "?nt = Fin t'" "q2 = b' * (t' / 60)"
    by blast
  from py_mul_nonneg_Fin[OF ab(2)] obtain e k' where 3: "sw = Fin e" "?nk = Fin k'" "q3 = e * (k' / 25)"
    by blast
  have k': "k' = k + 1" using 3(2) by simp
  obtain u where u: "ec = Fin u" "c' = c + u" using 1(2) by (cases ec) auto
  obtain v where v: "et = Fin v" "t' = t + v" using 2(2) by (cases et) auto
  have nnw: "0 \<le> a" "0 \<le> b'" "0 \<le> e" "0 \<le> u" "0 \<le> v"
    using w ed 1(1) 2(1) 3(1) u(1) v(1) by (auto simp add: nonneg_cases)
  have deq: "d' = a * ((c + u) / 100) + b' * ((t + v) / 60) + e * ((k + 1) / 25)"
    using ab(3) q(3) 1(3) 2(3) 3(3) k' u(2) v(2) by simp
  have "d \<le> a * (c / 100) + b' * (t / 60) + e * (k / 25)"
    using b 1(1) 2(1) 3(1) by (simp add: score_bound_def)
  then have le: "d \<le> d'" using blend_mono[OF nnw, of c t k] deq by linarith
  have sb: "score_bound cw tw sw d' c' t' (k + 1)"
    using deq 1(1) 2(1) 3(1) u(2) v(2) by (simp add: score_bound_def)
  show ?thesis
    using 1(2) 2(2) comp d' le sb u(2) v(2) pos nnw by auto
qed


lemma score_inv_relaxed:
  assumes si: "score_inv cw tw sw start st" and ti: "tree_inv net0 start st"
    and w: "nonneg cw" "nonneg tw" "nonneg sw" and ed: "nonneg (cost e)" "nonneg (travel_time e)"
    and cur: "cur \<in> visited st" and n: "n \<notin> visited st"
    and tot: "costs st cur = Some cc" "times st cur = Some t" "stops st cur = Some k"
    and lt: "py_lt (composite cw tw sw (py_add cc (cost e)) (py_add t (travel_time e))
                 (py_add k (Fin 1))) x"
  shows "score_inv cw tw sw start
           (relaxed cur n
              (composite cw tw sw (py_add cc (cost e)) (py_add t (travel_time e)) (py_add k (Fin 1)))
              (py_add cc (cost e)) (py_add t (travel_time e)) (py_add k (Fin 1)) st)"
    (is "score_inv cw tw sw start ?st'")
proof -
  have "reached start st cur"
    using ti cur by (simp add: tree_inv_def reached_inv_def)
  then obtain c0 t0 k0 d0 where z: "cc = Fin c0" "t = Fin t0" "k = Fin k0"
    "distances st cur = Some (Fin d0)" "0 \<le> c0" "0 \<le> t0" "0 \<le> k0"
    "score_bound cw tw sw d0 c0 t0 k0"
    using si tot unfolding score_inv_def by fastforce
  from relax_score[OF w ed z(5-8) lt[unfolded z(1-3)]] obtain c' t' d' where
    r: "py_add (Fin c0) (cost e) = Fin c'" "py_add (Fin t0) (travel_time e) = Fin t'"
       "composite cw tw sw (py_add (Fin c0) (cost e)) (py_add (Fin t0) (travel_time e))
          (py_add (Fin k0) (Fin 1)) = Fin d'"
       "0 \<le> c'" "0 \<le> t'" "d0 \<le> d'" "score_bound cw tw sw d' c' t' (k0 + 1)"
    by blast
  have ne: "cur \<noteq> n" using cur n by blast
  have reach: "reached start ?st' s \<Longrightarrow> s \<noteq> n \<Longrightarrow> reached start st s" for s
    by (simp add: reached_def)
  have 1: "\<exists>c t k d. costs ?st' s = Some (Fin c) \<and> times ?st' s = Some (Fin t) \<and>
            stops ?st' s = Some (Fin k) \<and> distances ?st' s = Some (Fin d) \<and>
            0 \<le> c \<and> 0 \<le> t \<and> 0 \<le> k \<and> score_bound cw tw sw d c t k"
    if "reached start ?st' s" for s
  proof (cases "s = n")
    case True
    then show ?thesis using r z(1-3,7) by simp
  next
    case False
    then show ?thesis using reach[OF that False] si unfolding score_inv_def by simp
  qed
  have 2: "score_le (distances ?st') p s" if "previous ?st' s = Some (Some p)" for s p
  proof (cases "s = n")
    case True
    then have "p = cur" using that by simp
    then show ?thesis using True ne z(1-4) r(3,6) by (auto simp add: score_le_def py_le_def)
  next
    case False
    then have p: "previous st s = Some (Some p)" using that by simp
    then have "p \<in> visited st" using ti by (simp add: tree_inv_def links_inv_def)
    then have "p \<noteq> n" using n by blast
    then have "distances ?st' p = distances st p" "distances ?st' s = distances st s"
      using False by simp_all
    moreover have "score_le (distances st) p s"
      using p si unfolding score_inv_def by blast
    ultimately show ?thesis by (simp only: score_le_def)
  qed
  show ?thesis unfolding score_inv_def using 1 2 by blast
qed

lemma score_inv_cong:
  assumes "score_inv cw tw sw start st" "distances st' = distances st" "costs st' = costs st"
    "times st' = times st" "stops st' = stops st" "previous st' = previous st"
  shows "score_inv cw tw sw start st'"
  using assms by (simp add: score_inv_def reached_def)

lemma both_inv_relax:
  assumes "tree_inv net0 start st" "score_inv cw tw sw start st"
    "nonneg cw" "nonneg tw" "nonneg sw" "nonneg_network net0"
    "cur \<in> visited st" "start \<in> visited st"
    "c \<in> set (outgoing net0 cur)" "relax cw tw sw cur c st = Inr st'"
  shows "score_inv cw tw sw start st'"
  using assms(10)
proof (cases rule: relax_Inr_cases)
  case skip
  then show ?thesis using assms(2) by simp
next
  case (update cc t k d)
  have "cur |\<in>| stations net0"
    using assms(1,7) unfolding tree_inv_def keys_inv_def by auto
  then have ed: "nonneg (cost c)" "nonneg (travel_time c)"
    using assms(6,9) unfolding nonneg_network_def by auto
  show ?thesis
    unfolding update(7)
    using score_inv_relaxed[OF assms(2,1,3,4,5) ed assms(7) update(1,2,3,4,6)] .
qed

lemma both_inv_relax_all:
  assumes "tree_inv net0 start st" "score_inv cw tw sw start st"
    "nonneg cw" "nonneg tw" "nonneg sw" "nonneg_network net0"
    "cur \<in> visited st" "start \<in> visited st"
    "set es \<subseteq> set (outgoing net0 cur)" "relax_all cw tw sw cur es st = Inr st'"
  shows "score_inv cw tw sw start st'"
  using assms
proof (induction es arbitrary: st)
  case Nil
  then show ?case by simp
next
  case (Cons c es)
  from Cons.prems(10) obtain st1 where st1: "relax cw tw sw cur c st = Inr st1"
    "relax_all cw tw sw cur es st1 = Inr st'"
    by (auto split: sum.splits)
  have c: "c \<in> set (outgoing net0 cur)" using Cons.prems(9) by simp
  have t1: "tree_inv net0 start st1 \<and> visited st1 = visited st"
    using tree_inv_relax[OF Cons.prems(1,7,8) c st1(1)] .
  have s1: "score_inv cw tw sw start st1"
    using both_inv_relax[OF Cons.prems(1-8) c st1(1)] .
  show ?case
    using Cons.IH[of st1] t1 s1 Cons.prems(3-9) st1(2) by simp
qed

lemma score_inv_iteration:
  assumes "tree_inv net0 start st" "score_inv cw tw sw start st"
    "nonneg cw" "nonneg tw" "nonneg sw" "nonneg_network net0"
    "iteration cw tw sw st = Inr st'"
  shows "score_inv cw tw sw start st'"
  using assms(7)
proof (cases rule: iteration_Inr_cases)
  case (continue d cur)
  then show ?thesis using score_inv_cong[OF assms(2)] by simp
next
  case (settle d cur)
  have t: "tree_inv net0 start (settled d cur st)"
    using tree_inv_settled[OF assms(1) settle(1)] .
  have s: "score_inv cw tw sw start (settled d cur st)"
    using score_inv_cong[OF assms(2)] by simp
  have o: "outgoing (network st) cur = outgoing net0 cur"
    using assms(1) net_inv_outgoing by (simp add: tree_inv_def)
  have v: "start \<in> visited (settled d cur st)"
    using assms(1) settle(1) start_inv_settled by (simp add: tree_inv_def)
  show ?thesis
    using both_inv_relax_all[OF t s assms(3-6) _ v _ settle(3)[unfolded o]] by simp
qed

lemma dijkstra_loop_score_inv_aux:
  assumes "dijkstra_loop cw tw sw st = Some r"
  shows "\<forall>st'. r = Inr st' \<longrightarrow> tree_inv net0 start st \<longrightarrow> score_inv cw tw sw start st \<longrightarrow>
           nonneg cw \<longrightarrow> nonneg tw \<longrightarrow> nonneg sw \<longrightarrow> nonneg_network net0 \<longrightarrow>
           score_inv cw tw sw start st'"
  using assms
proof (induction cw tw sw st r rule: dijkstra_loop.raw_induct[rotated 1, consumes 1])
  case (1 loop cw tw sw st r)
  show ?case
  proof (intro allI impI)
    fix st' assume r: "r = Inr st'" and t: "tree_inv net0 start st"
      and s: "score_inv cw tw sw start st"
      and w: "nonneg cw" "nonneg tw" "nonneg sw" "nonneg_network net0"
    show "score_inv cw tw sw start st'"
    proof (cases "pq st = []")
      case True
      then show ?thesis using 1(2) r s by simp
    next
      case False
      then obtain st1 where st1: "iteration cw tw sw st = Inr st1" "loop cw tw sw st1 = Some r"
        using 1(2) r by (auto split: sum.splits)
      show ?thesis
        using 1(1)[OF st1(2)] r tree_inv_iteration[OF t st1(1)]
          score_inv_iteration[OF t s w st1(1)] w by simp
    qed
  qed
qed

lemma score_inv_initial: "score_inv cw tw sw start (initial net0 start)"
  by (auto simp add: score_inv_def reached_def initial_def score_bound_def)

lemma nondecreasing_snoc:
  "nondecreasing d (p @ [b]) = (nondecreasing d p \<and> (p = [] \<or> score_le d (last p) b))"
  by (induction d p rule: nondecreasing.induct) auto

lemma chain_nondecreasing:
  assumes "score_inv cw tw sw start st"
  shows "chain (previous st) l \<Longrightarrow> nondecreasing (distances st) (rev l)"
proof (induction "previous st" l rule: chain.induct)
  case (3 x y rest)
  then have "score_le (distances st) y x" using assms by (simp add: score_inv_def)
  moreover have "nondecreasing (distances st) (rev (y # rest))" using 3 by simp
  ultimately have "nondecreasing (distances st) (rev (y # rest) @ [x])"
    unfolding nondecreasing_snoc by simp
  then show ?case by simp
qed simp_all

lemma relax_frozen:
  assumes "relax cw tw sw cur c st = Inr st'"
  shows "visited st' = visited st \<and> (\<forall>x \<in> visited st. distances st' x = distances st x)"
  using assms by (cases rule: relax_Inr_cases) auto

lemma relax_all_frozen:
  "relax_all cw tw sw cur es st = Inr st' \<Longrightarrow>
   visited st' = visited st \<and> (\<forall>x \<in> visited st. distances st' x = distances st x)"
proof (induction es arbitrary: st)
  case Nil
  then show ?case by simp
next
  case (Cons c es)
  from Cons.prems obtain st1 where st1: "relax cw tw sw cur c st = Inr st1"
    "relax_all cw tw sw cur es st1 = Inr st'"
    by (auto split: sum.splits)
  show ?case using relax_frozen[OF st1(1)] Cons.IH[OF st1(2)] by simp
qed

lemma iteration_frozen:
  assumes "iteration cw tw sw st = Inr st'"
  shows "visited st \<subseteq> visited st' \<and> (\<forall>x \<in> visited st. distances st' x = distances st x)"
  using assms
proof (cases rule: iteration_Inr_cases)
  case (continue d cur)
  then show ?thesis by simp
next
  case (settle d cur)
  from relax_all_frozen[OF settle(3)] show ?thesis by auto
qed

lemma dijkstra_loop_frozen_aux:
  assumes "dijkstra_loop cw tw sw st = Some r"
  shows "\<forall>st'. r = Inr st' \<longrightarrow>
           visited st \<subseteq> visited st' \<and> (\<forall>x \<in> visited st. distances st' x = distances st x)"
  using assms
proof (induction cw tw sw st r rule: dijkstra_loop.raw_induct[rotated 1, consumes 1])
  case (1 loop cw tw sw st r)
  show ?case
  proof (intro allI impI)
    fix st' assume r: "r = Inr st'"
    show "visited st \<subseteq> visited st' \<and> (\<forall>x \<in> visited st. distances st' x = distances st x)"
    proof (cases "pq st = []")
      case True
      then show ?thesis using 1(2) r by simp
    next
      case False
      then obtain st1 where st1: "iteration cw tw sw st = Inr st1" "loop cw tw sw st1 = Some r"
        using 1(2) r by (auto split: sum.splits)
      have "visited st1 \<subseteq> visited st' \<and> (\<forall>x \<in> visited st1. distances st' x = distances st1 x)"
        using 1(1)[OF st1(2)] r by simp
      then show ?thesis using iteration_frozen[OF st1(1)] by auto
    qed
  qed
qed


text \<open>
  C3: with weights and edge costs and times that are not negative, the final scores of
  the search do not decrease along the path of any returned entry (the score of each
  station of the path is at most the score of the next one); and from any state of the
  loop on, a station that is settled stays settled and keeps its recorded score until the
  loop returns.
\<close>

theorem scores_never_decrease:
  assumes "nonneg cw" "nonneg tw" "nonneg sw" "nonneg_network net"
    and "dijkstra_multi_criteria net start cw tw sw = Some (Inr res, net1)"
    and "find_optimal_routes net start cw tw sw = Some (Inr routes, net2)"
    and "routes s = Some r"
  shows "nondecreasing (distances res) (path r) \<and>
         (\<forall>st st' x. dijkstra_loop cw tw sw st = Some (Inr st') \<longrightarrow> x \<in> visited st \<longrightarrow>
            x \<in> visited st' \<and> distances st' x = distances st x)"
proof
  from assms(5) obtain st where st: "start |\<in>| stations net" "res = results_of st"
    "dijkstra_loop cw tw sw (initial net start) = Some (Inr st)" "tree_inv net start st"
    by (cases rule: dijkstra_Some_cases) auto
  have sc: "score_inv cw tw sw start st"
    using dijkstra_loop_score_inv_aux[OF st(3), of net start]
      tree_inv_initial[OF st(1)] score_inv_initial assms(1-4) by blast
  have "routes_loop start res (sorted_list_of_fset (stations net1)) Map.empty = Some (Inr routes)"
    using assms(5,6) by (auto simp add: find_optimal_routes_def split: option.splits)
  from routes_loop_sound[OF this assms(7)] have "is_route start (results_of st) s r"
    using st(2) by simp
  from is_route_path[OF st(4) this] obtain xs where
    xs: "chain (previous st) (s # xs)" "path r = rev (s # xs)" by blast
  have "nondecreasing (distances st) (rev (s # xs))"
    using chain_nondecreasing[OF sc xs(1)] .
  then show "nondecreasing (distances res) (path r)"
    using xs(2) st(2) by (simp add: results_of_def)
next
  show "\<forall>st st' x. dijkstra_loop cw tw sw st = Some (Inr st') \<longrightarrow> x \<in> visited st \<longrightarrow>
            x \<in> visited st' \<and> distances st' x = distances st x"
    using dijkstra_loop_frozen_aux by blast
qed

lemma default_weights_nonneg: "nonneg (Fin (3 / 10))" "nonneg (Fin (4 / 10))"
  by (simp_all add: nonneg_def py_le_def)

text \<open>C3 on the reference network, for the route from Aluva to Pulinchodu.\<close>

theorem scores_never_decrease_witness:
  "nonneg (Fin (3 / 10)) \<and> nonneg (Fin (4 / 10)) \<and> nonneg_network KochiMetroNetwork \<and>
   (\<exists>res net1 routes net2 r.
      dijkstra_multi_criteria KochiMetroNetwork ''Aluva'' (Fin (3 / 10)) (Fin (4 / 10)) (Fin (3 / 10))
        = Some (Inr res, net1) \<and>
      find_optimal_routes KochiMetroNetwork ''Aluva'' (Fin (3 / 10)) (Fin (4 / 10)) (Fin (3 / 10))
        = Some (Inr routes, net2) \<and>
      routes ''Pulinchodu'' = Some r \<and> path r = [''Aluva'', ''Pulinchodu''] \<and>
      nondecreasing (distances res) (path r) \<and>
      score_le (distances res) ''Aluva'' ''Pulinchodu'')"
proof -
  obtain routes net2 r where
    h: "find_optimal_routes KochiMetroNetwork ''Aluva'' (Fin (3 / 10)) (Fin (4 / 10)) (Fin (3 / 10))
       = Some (Inr routes, net2)" "routes ''Pulinchodu'' = Some r"
       "path r = [''Aluva'', ''Pulinchodu'']"
    by (rule kochi_run)
  from h(1) obtain st where
    d: "dijkstra_multi_criteria KochiMetroNetwork ''Aluva'' (Fin (3 / 10)) (Fin (4 / 10)) (Fin (3 / 10))
        = Some (Inr (results_of st), net2)"
    by (rule find_optimal_routes_Inr)
  have n: "nondecreasing (distances (results_of st)) (path r)"
    using scores_never_decrease[OF default_weights_nonneg(1,2,1) kochi_nonneg d h(1,2)] by simp
  then have "score_le (distances (results_of st)) ''Aluva'' ''Pulinchodu''"
    using h(3) by simp
  then show ?thesis
    using default_weights_nonneg kochi_nonneg d h n by blast
qed

section \<open>A network that is not connected and has an edge to an unregistered station\<close>

text \<open>
  C6, as the claim states it, fails: on a network that is not connected (no edge reaches
  or leaves the registered station Airport) and in which an edge from Aluva ends at a
  station that is not registered, the call from the registered origin Aluva ends with a
  \<open>KeyError\<close> and returns no mapping.
\<close>

theorem partial_mapping_counterexample:
  "''Aluva'' |\<in>| stations with_airport_and_ghost_edge \<and>
   ''Airport'' |\<in>| stations with_airport_and_ghost_edge \<and>
   outgoing with_airport_and_ghost_edge ''Airport'' = [] \<and>
   raised (find_optimal_routes with_airport_and_ghost_edge ''Aluva''
       (Fin (3 / 10)) (Fin (4 / 10)) (Fin (3 / 10))) = Some (KeyError ''Ghost'')"
  by code_simp

end
